theory Spec2Isabelle
  imports Complex_Main
begin

section \<open>Switch error rate between an estimated and a true phasing (main.cc)\<close>

text \<open>
  The program reads two genotype streams locus by locus and tracks, for every sample,
  which estimated homolog corresponds to which true homolog. The model follows
  \<^verbatim>\<open>main.cc\<close> statement by statement.

  \<^item> A \<^verbatim>\<open>FILE*\<close> opened for reading is the list of the characters that remain;
    \<^verbatim>\<open>fgetc\<close> returns \<open>None\<close> for \<^verbatim>\<open>EOF\<close>.
  \<^item> \<^verbatim>\<open>assert\<close>, \<^verbatim>\<open>exit(1)\<close> and a read outside an array are values of
    the type \<open>error\<close>; an assertion carries its line in \<^verbatim>\<open>main.cc\<close>.
  \<^item> A loop that can spin forever (\<^verbatim>\<open>while ((c = getc(f)) != '\n');\<close> at the end
    of a file) returns \<open>None\<close>.
  \<^item> The \<^verbatim>\<open>int\<close> counters only count up from zero and are natural numbers here;
    signed overflow, undefined in C++, is outside the model.
  \<^item> The three posteriors of a HAPMIX record are rational numbers; the rounding of
    \<^verbatim>\<open>float\<close> is outside the model.
\<close>

subsection \<open>Errors, options, state\<close>

datatype error =
    AssertionFailed nat
  | MalformedLocalAnc
  | OutOfBounds

text \<open>The globals set by \<^verbatim>\<open>parseCmdLine\<close> and the setup code of \<^verbatim>\<open>main\<close>.\<close>

record options =
  numSamples :: nat
  skipNumInEst :: int
  trioParentsInSuccession :: bool
  otherParentIdx :: "int list option"
  omitIndSet :: "nat list"
  useLocalAnc :: bool
  verbose :: bool

text \<open>
  One record of a HAPMIX file as \<^verbatim>\<open>fscanf(hapmixFile, "%d %f %f %f", ...)\<close> sees it:
  \<open>None\<close> when the four conversions do not all succeed.
\<close>

type_synonym hapmix_record = "(int \<times> rat \<times> rat \<times> rat) option"

datatype message =
    OneHapTruthWarning
  | SwitchInfo nat nat int int

record state =
  hapmixFiles :: "hapmix_record list list"
  prevLocalAnc :: "int list"
  homologsInverted :: "int list"
  prevSwitchError :: "int list"
  indivNumSwitches :: "nat list"
  numMissing :: nat
  numSwitchErrors :: nat
  totalHetSites :: nat
  numMarkers :: nat
  numAncClassSwitchErrors :: "nat list"
  totalAncClassHetSites :: "nat list"
  oneHapTruthWarn :: bool
  stderr_out :: "message list"

text \<open>Which statement ended one iteration of the per-sample loop.\<close>

datatype flow =
    MissingTruth
  | TripleHet bool
  | MissingEstimate
  | Compared

subsection \<open>Streams and arrays\<close>

definition fgetc :: "string \<Rightarrow> char option \<times> string" where
  "fgetc f = (case f of [] \<Rightarrow> (None, []) | c # cs \<Rightarrow> (Some c, cs))"

definition ungetc :: "char \<Rightarrow> string \<Rightarrow> string" where
  "ungetc c f = c # f"

text \<open>
  \<^verbatim>\<open>allEstAlleles[i] = c\<close> stores the \<^verbatim>\<open>int\<close> returned by \<^verbatim>\<open>fgetc\<close> in a
  \<^verbatim>\<open>char\<close>: \<^verbatim>\<open>EOF\<close> (-1) becomes the byte 0xFF.
\<close>

definition to_char :: "char option \<Rightarrow> char" where
  "to_char c = (case c of None \<Rightarrow> CHR 0xFF | Some ch \<Rightarrow> ch)"

definition arr_read :: "'a list \<Rightarrow> int \<Rightarrow> error + 'a" where
  "arr_read xs i = (if 0 \<le> i \<and> i < int (length xs) then Inr (xs ! nat i) else Inl OutOfBounds)"

definition incr :: "nat list \<Rightarrow> nat \<Rightarrow> nat list" where
  "incr xs i = xs[i := xs ! i + 1]"

subsection \<open>Site Reader (lines 155--192, 365--367)\<close>

text \<open>
  \<^verbatim>\<open>while (i < 2 * skipNumInEst && (c = fgetc(estG)) != '\n') i++;\<close>
\<close>

function skip_samples :: "int \<Rightarrow> int \<Rightarrow> string \<Rightarrow> int \<times> string" where
  "skip_samples bound i estG =
     (if i < bound then
        (case fgetc estG of (c, estG') \<Rightarrow>
           if c \<noteq> Some CHR ''\<newline>'' then skip_samples bound (i + 1) estG' else (i, estG'))
      else (i, estG))"
  by pat_completeness auto
termination
  by (relation "measure (\<lambda>(bound, i, estG). nat (bound - i))") auto

text \<open>
  The loop of lines 168--177. The array \<^verbatim>\<open>allEstAlleles\<close> is filled from index 0, so
  the list \<open>acc\<close> holds its first \<open>i\<close> entries and \<open>i = length acc\<close>. The result is the
  last value of \<open>c\<close>, the entries written and the stream.
\<close>

function read_est_alleles ::
  "nat \<Rightarrow> nat list \<Rightarrow> nat \<Rightarrow> string \<Rightarrow> string \<Rightarrow> char option \<times> string \<times> string" where
  "read_est_alleles n2 omit curHap acc estG =
     (case fgetc estG of (c, estG') \<Rightarrow>
        if c \<noteq> Some CHR ''\<newline>'' \<and> length acc < n2 then
          (if curHap div 2 \<in> set omit
           then read_est_alleles n2 omit (curHap + 1) acc estG'
           else read_est_alleles n2 omit (curHap + 1) (acc @ [to_char c]) estG')
        else (c, acc, estG'))"
  by pat_completeness auto
termination
proof (relation "measure (\<lambda>(n2, omit, curHap, acc, estG).
          (n2 - length acc) + (2 * Suc (Max (insert 0 (set omit))) - curHap))", goal_cases)
  case 1
  show ?case by simp
next
  case (2 n2 omit curHap acc estG x y)
  have "curHap div 2 \<le> Max (insert 0 (set omit))"
    using 2 by (intro Max_ge) auto
  then have "curHap < 2 * Suc (Max (insert 0 (set omit)))" by arith
  with 2 show ?case by simp arith
next
  case (3 n2 omit curHap acc estG x y)
  then show ?case by simp arith
qed

text \<open>The loop of lines 185--188.\<close>

function read_true_alleles :: "nat \<Rightarrow> string \<Rightarrow> string \<Rightarrow> char option \<times> string \<times> string" where
  "read_true_alleles n2 acc trueG =
     (case fgetc trueG of (c, trueG') \<Rightarrow>
        if c \<noteq> Some CHR ''\<newline>'' \<and> length acc < n2
        then read_true_alleles n2 (acc @ [to_char c]) trueG'
        else (c, acc, trueG'))"
  by pat_completeness auto
termination
  by (relation "measure (\<lambda>(n2, acc, trueG). n2 - length acc)") auto

text \<open>\<^verbatim>\<open>if (c == '\n') ungetc(c, f);\<close> (lines 179--181 and 190--192).\<close>

definition unget_newline :: "char option \<Rightarrow> string \<Rightarrow> string" where
  "unget_newline c f = (if c = Some CHR ''\<newline>'' then ungetc CHR ''\<newline>'' f else f)"

text \<open>
  Lines 155--192: the result is \<^verbatim>\<open>allEstAlleles\<close>, \<^verbatim>\<open>allTrueAlleles\<close> and the two
  streams.
\<close>

definition read_site :: "options \<Rightarrow> string \<Rightarrow> string \<Rightarrow> error + (string \<times> string \<times> string \<times> string)" where
  "read_site opts estG trueG =
     (case skip_samples (2 * skipNumInEst opts) 0 estG of (i, estG1) \<Rightarrow>
      if i \<noteq> 2 * skipNumInEst opts then Inl (AssertionFailed 162) else
      case read_est_alleles (2 * numSamples opts) (omitIndSet opts) 0 [] estG1 of
        (c, allEstAlleles, estG2) \<Rightarrow>
      if length allEstAlleles \<noteq> 2 * numSamples opts then Inl (AssertionFailed 178) else
      let estG3 = unget_newline c estG2 in
      case read_true_alleles (2 * numSamples opts) [] trueG of
        (c', allTrueAlleles, trueG1) \<Rightarrow>
      if length allTrueAlleles \<noteq> 2 * numSamples opts then Inl (AssertionFailed 189) else
      let trueG2 = unget_newline c' trueG1 in
      Inr (allEstAlleles, allTrueAlleles, estG3, trueG2))"

text \<open>
  \<^verbatim>\<open>while ((c = getc(f)) != '\n');\<close> at \<^verbatim>\<open>EOF\<close> every further \<^verbatim>\<open>getc\<close>
  returns \<^verbatim>\<open>EOF\<close> again and the loop never exits: \<open>None\<close>.
\<close>

fun read_to_endline :: "string \<Rightarrow> string option" where
  "read_to_endline [] = None"
| "read_to_endline (c # f) = (if c \<noteq> CHR ''\<newline>'' then read_to_endline f else Some f)"

subsection \<open>Local-ancestry records (lines 199--211, 486--506)\<close>

definition getLocalAnc :: "hapmix_record list \<Rightarrow> error + (int \<times> hapmix_record list)" where
  "getLocalAnc hapmixFile =
     (case hapmixFile of
        [] \<Rightarrow> Inl MalformedLocalAnc
      | None # _ \<Rightarrow> Inl MalformedLocalAnc
      | Some (pos, homozyPop1, het, homozyPop2) # rest \<Rightarrow>
          let sum = homozyPop1 + het + homozyPop2 in
          if \<not> (sum \<ge> 997 / 1000 \<and> sum \<le> 1003 / 1000) then Inl (AssertionFailed 496)
          else if homozyPop1 > 9 / 10 then Inr (0, rest)
          else if het > 9 / 10 then Inr (1, rest)
          else if homozyPop2 > 9 / 10 then Inr (2, rest)
          else Inr (-1, rest))"

text \<open>Lines 198--211: the result is \<^verbatim>\<open>prevAndCurAncClass\<close>.\<close>

definition local_anc_class :: "options \<Rightarrow> nat \<Rightarrow> state \<Rightarrow> error + (int \<times> state)" where
  "local_anc_class opts samp st =
     (if useLocalAnc opts then
        (case getLocalAnc (hapmixFiles st ! samp) of
           Inl e \<Rightarrow> Inl e
         | Inr (curLocalAncClass, hapmixFile') \<Rightarrow>
             let prevLocalAncClass = prevLocalAnc st ! samp;
                 st' = st\<lparr>hapmixFiles := (hapmixFiles st)[samp := hapmixFile'],
                          prevLocalAnc := (prevLocalAnc st)[samp := curLocalAncClass]\<rparr>
             in if curLocalAncClass = prevLocalAncClass \<and> curLocalAncClass \<ge> 0
                then Inr (curLocalAncClass, st')
                else Inr (-1, st'))
      else Inr (-1, st))"

subsection \<open>Trio ambiguity filter (lines 241--269)\<close>

text \<open>
  The condition of lines 252--254. \<^verbatim>\<open>&&\<close> evaluates from the left and stops at the
  first false operand, so the partner's entries are read only when the sample itself
  is heterozygous.
\<close>

definition tripleHet :: "string \<Rightarrow> string \<Rightarrow> int \<Rightarrow> error + bool" where
  "tripleHet allTrueAlleles trueAlleles otherParent =
     (if trueAlleles ! 0 \<noteq> trueAlleles ! 1 then
        (case arr_read allTrueAlleles (otherParent * 2) of
           Inl e \<Rightarrow> Inl e
         | Inr p0 \<Rightarrow>
        (case arr_read allTrueAlleles (otherParent * 2 + 1) of
           Inl e \<Rightarrow> Inl e
         | Inr p1 \<Rightarrow>
             if p0 \<noteq> p1 then Inr (trueAlleles ! 0 \<noteq> p0) else Inr False))
      else Inr False)"

definition trioCheckApplies :: "options \<Rightarrow> nat \<Rightarrow> bool" where
  "trioCheckApplies opts samp =
     ((trioParentsInSuccession opts \<and> samp mod 2 = 0) \<or> otherParentIdx opts \<noteq> None)"

definition otherParentOf :: "options \<Rightarrow> nat \<Rightarrow> int" where
  "otherParentOf opts samp =
     (if trioParentsInSuccession opts then int samp + 1
      else (case otherParentIdx opts of Some tbl \<Rightarrow> tbl ! samp | None \<Rightarrow> -1))"

subsection \<open>Phase tracker (lines 279--362)\<close>

definition count_het_site :: "int \<Rightarrow> state \<Rightarrow> state" where
  "count_het_site prevAndCurAncClass st =
     st\<lparr>totalHetSites := totalHetSites st + 1,
        totalAncClassHetSites :=
          incr (totalAncClassHetSites st)
            (if prevAndCurAncClass \<ge> 0 then nat prevAndCurAncClass else 3)\<rparr>"

definition count_switch :: "options \<Rightarrow> nat \<Rightarrow> int \<Rightarrow> state \<Rightarrow> state" where
  "count_switch opts samp prevAndCurAncClass st =
     (let locus = int (numMarkers st) - 1 in
      st\<lparr>numSwitchErrors := numSwitchErrors st + 1,
         numAncClassSwitchErrors :=
           incr (numAncClassSwitchErrors st)
             (if prevAndCurAncClass \<ge> 0 then nat prevAndCurAncClass else 3),
         homologsInverted := (homologsInverted st)[samp := 1 - homologsInverted st ! samp],
         stderr_out :=
           (if verbose opts
            then stderr_out st @
                 [SwitchInfo samp (indivNumSwitches st ! samp) locus
                    (locus - prevSwitchError st ! samp)]
            else stderr_out st),
         prevSwitchError := (prevSwitchError st)[samp := locus],
         indivNumSwitches := incr (indivNumSwitches st) samp\<rparr>)"

definition track_phase ::
  "options \<Rightarrow> nat \<Rightarrow> int \<Rightarrow> string \<Rightarrow> string \<Rightarrow> state \<Rightarrow> error + state" where
  "track_phase opts samp prevAndCurAncClass estAlleles trueAlleles st =
     (if homologsInverted st ! samp = -1 then
        (if trueAlleles ! 0 = trueAlleles ! 1 then
           (if estAlleles ! 0 = estAlleles ! 1 \<and> estAlleles ! 0 = trueAlleles ! 0
            then Inr st else Inl (AssertionFailed 293))
         else if estAlleles ! 0 = trueAlleles ! 0 then
           (if estAlleles ! 1 = trueAlleles ! 1
            then Inr (st\<lparr>homologsInverted := (homologsInverted st)[samp := 0]\<rparr>)
            else Inl (AssertionFailed 304))
         else
           (if estAlleles ! 0 = trueAlleles ! 1 \<and> estAlleles ! 1 = trueAlleles ! 0
            then Inr (st\<lparr>homologsInverted := (homologsInverted st)[samp := 1]\<rparr>)
            else Inl (AssertionFailed 307)))
      else
        (let h0 = homologsInverted st ! samp;
             h1 = 1 - homologsInverted st ! samp;
             st1 = (if trueAlleles ! 0 \<noteq> trueAlleles ! 1
                    then count_het_site prevAndCurAncClass st else st)
         in case arr_read estAlleles h0 of
              Inl e \<Rightarrow> Inl e
            | Inr est_h0 \<Rightarrow>
                if est_h0 = trueAlleles ! 0 then
                  (case arr_read estAlleles h1 of
                     Inl e \<Rightarrow> Inl e
                   | Inr est_h1 \<Rightarrow>
                       if est_h1 = trueAlleles ! 1 then Inr st1
                       else Inl (AssertionFailed 329))
                else if est_h0 \<noteq> trueAlleles ! 1 then Inl (AssertionFailed 343)
                else
                  (case arr_read estAlleles h1 of
                     Inl e \<Rightarrow> Inl e
                   | Inr est_h1 \<Rightarrow>
                       if est_h1 = trueAlleles ! 0
                       then Inr (count_switch opts samp prevAndCurAncClass st1)
                       else Inl (AssertionFailed 343))))"

text \<open>Lines 272--362: a missing estimate is counted and skipped, anything else is tracked.\<close>

definition compare_alleles ::
  "options \<Rightarrow> nat \<Rightarrow> int \<Rightarrow> string \<Rightarrow> string \<Rightarrow> state \<Rightarrow> error + (flow \<times> state)" where
  "compare_alleles opts samp prevAndCurAncClass estAlleles trueAlleles st =
     (if estAlleles ! 0 = CHR ''?'' \<or> estAlleles ! 1 = CHR ''?'' then
        (if estAlleles ! 0 = estAlleles ! 1
         then Inr (MissingEstimate, st\<lparr>numMissing := numMissing st + 1\<rparr>)
         else Inl (AssertionFailed 274))
      else
        (case track_phase opts samp prevAndCurAncClass estAlleles trueAlleles st of
           Inl e \<Rightarrow> Inl e
         | Inr st2 \<Rightarrow> Inr (Compared, st2)))"

subsection \<open>One iteration of the per-sample loop (lines 198--362)\<close>

definition compare_sample ::
  "options \<Rightarrow> string \<Rightarrow> string \<Rightarrow> nat \<Rightarrow> state \<Rightarrow> error + (flow \<times> state)" where
  "compare_sample opts allEstAlleles allTrueAlleles samp st =
     (case local_anc_class opts samp st of
        Inl e \<Rightarrow> Inl e
      | Inr (prevAndCurAncClass, st1) \<Rightarrow>
     (let estAlleles = [allEstAlleles ! (samp * 2), allEstAlleles ! (samp * 2 + 1)];
          trueAlleles = [allTrueAlleles ! (samp * 2), allTrueAlleles ! (samp * 2 + 1)]
      in
      if \<not> (trueAlleles ! 0 = CHR ''0'' \<or> trueAlleles ! 0 = CHR ''1''
              \<or> trueAlleles ! 0 = CHR ''9'')
      then Inl (AssertionFailed 225)
      else if \<not> (trueAlleles ! 1 = CHR ''0'' \<or> trueAlleles ! 1 = CHR ''1''
              \<or> trueAlleles ! 1 = CHR ''9'')
      then Inl (AssertionFailed 225)
      else if trueAlleles ! 0 = CHR ''9'' \<or> trueAlleles ! 1 = CHR ''9'' then
        (if \<not> oneHapTruthWarn st1 \<and> (trueAlleles ! 0 \<noteq> CHR ''9'' \<or> trueAlleles ! 1 \<noteq> CHR ''9'')
         then Inr (MissingTruth,
                   st1\<lparr>stderr_out := stderr_out st1 @ [OneHapTruthWarning],
                       oneHapTruthWarn := True\<rparr>)
         else Inr (MissingTruth, st1))
      else if \<not> (estAlleles ! 0 \<noteq> CHR ''9'' \<and> estAlleles ! 1 \<noteq> CHR ''9'')
      then Inl (AssertionFailed 238)
      else
        (case (if trioCheckApplies opts samp
               then tripleHet allTrueAlleles trueAlleles (otherParentOf opts samp)
               else Inr False) of
           Inl e \<Rightarrow> Inl e
         | Inr True \<Rightarrow> Inr (TripleHet (trioParentsInSuccession opts), st1)
         | Inr False \<Rightarrow>
             compare_alleles opts samp prevAndCurAncClass estAlleles trueAlleles st1)))"

text \<open>
  The \<^verbatim>\<open>for\<close> loop over the samples. After a triple-het skip in the in-succession
  convention the body has already incremented \<^verbatim>\<open>samp\<close>, so the next index is
  \<open>samp + 2\<close>.
\<close>

definition next_samp :: "flow \<Rightarrow> nat \<Rightarrow> nat" where
  "next_samp fl samp = (if fl = TripleHet True then samp + 2 else samp + 1)"

function sample_loop :: "options \<Rightarrow> string \<Rightarrow> string \<Rightarrow> nat \<Rightarrow> state \<Rightarrow> error + state" where
  "sample_loop opts allEstAlleles allTrueAlleles samp st =
     (if samp < numSamples opts then
        (case compare_sample opts allEstAlleles allTrueAlleles samp st of
           Inl e \<Rightarrow> Inl e
         | Inr (fl, st') \<Rightarrow> sample_loop opts allEstAlleles allTrueAlleles (next_samp fl samp) st')
      else Inr st)"
  by pat_completeness auto
termination
  by (relation "measure (\<lambda>(opts, allEstAlleles, allTrueAlleles, samp, st). numSamples opts - samp)")
     (auto simp: next_samp_def)

subsection \<open>The per-locus loop (lines 150--368)\<close>

text \<open>One iteration: \<open>None\<close> when a read-to-endline loop never exits.\<close>

definition locus_body ::
  "options \<Rightarrow> state \<Rightarrow> string \<Rightarrow> string \<Rightarrow> (error + (state \<times> string \<times> string)) option" where
  "locus_body opts st estG trueG =
     (case read_site opts estG trueG of
        Inl e \<Rightarrow> Some (Inl e)
      | Inr (allEstAlleles, allTrueAlleles, estG1, trueG1) \<Rightarrow>
     (case sample_loop opts allEstAlleles allTrueAlleles 0
             (st\<lparr>numMarkers := numMarkers st + 1\<rparr>) of
        Inl e \<Rightarrow> Some (Inl e)
      | Inr st' \<Rightarrow>
     (case read_to_endline estG1 of
        None \<Rightarrow> None
      | Some estG2 \<Rightarrow>
     (case read_to_endline trueG1 of
        None \<Rightarrow> None
      | Some trueG2 \<Rightarrow> Some (Inr (st', estG2, trueG2))))))"

text \<open>
  The \<^verbatim>\<open>while ((c = fgetc(estG)) != EOF)\<close> loop; the character read by the test is
  pushed back at once (line 151).
\<close>

function main_loop :: "options \<Rightarrow> state \<Rightarrow> string \<Rightarrow> string \<Rightarrow> (error + state) option" where
  "main_loop opts st estG trueG =
     (case fgetc estG of
        (None, _) \<Rightarrow> Some (Inr st)
      | (Some c, estG0) \<Rightarrow>
          (case locus_body opts st (ungetc c estG0) trueG of
             None \<Rightarrow> None
           | Some (Inl e) \<Rightarrow> Some (Inl e)
           | Some (Inr (st', estG', trueG')) \<Rightarrow> main_loop opts st' estG' trueG'))"
  by pat_completeness auto
termination
proof (relation "measure (\<lambda>(opts, st, estG, trueG). length estG)", goal_cases)
  case 1
  show ?case by simp
next
  case (2 opts st estG trueG x y x2 x2a b xa ya xb yb)
  have skip: "length (snd (skip_samples k i f)) \<le> length f" for k i f
  proof (induction k i f rule: skip_samples.induct)
    case (1 k i f)
    obtain c f0 where g: "fgetc f = (c, f0)" by (cases "fgetc f")
    then have len: "length f0 \<le> length f"
      by (auto simp: fgetc_def split: list.splits)
    show ?case
    proof (cases "i < k \<and> c \<noteq> Some CHR ''\<newline>''")
      case True
      with 1[OF _ g[symmetric]] have "length (snd (skip_samples k (i + 1) f0)) \<le> length f0"
        by simp
      moreover from True g have "skip_samples k i f = skip_samples k (i + 1) f0"
        by (subst skip_samples.simps) simp
      ultimately show ?thesis using len by simp
    next
      case False
      with g have "snd (skip_samples k i f) = f0 \<or> snd (skip_samples k i f) = f"
        by (subst skip_samples.simps, simp)+
      with len show ?thesis by auto
    qed
  qed
  have est: "length (unget_newline c f') \<le> length f"
    if "read_est_alleles n2 omit h acc f = (c, a, f')" for n2 omit h acc f c a f'
    using that
  proof (induction n2 omit h acc f rule: read_est_alleles.induct)
    case (1 n2 omit curHap acc estG)
    obtain x xs where g: "fgetc estG = (x, xs)" by (cases "fgetc estG")
    then have len: "length xs \<le> length estG" "x \<noteq> None \<Longrightarrow> Suc (length xs) \<le> length estG"
      by (auto simp: fgetc_def split: list.splits)
    show ?case
    proof (cases "x \<noteq> Some CHR ''\<newline>'' \<and> length acc < n2")
      case False
      with "1.prems" g have "c = x" "f' = xs"
        by (subst (asm) read_est_alleles.simps, simp)+
      with len show ?thesis by (auto simp: unget_newline_def ungetc_def)
    next
      case True
      show ?thesis
      proof (cases "curHap div 2 \<in> set omit")
        case om: True
        with True "1.prems" g have "read_est_alleles n2 omit (curHap + 1) acc xs = (c, a, f')"
          by (subst (asm) read_est_alleles.simps) simp
        from "1.IH"(1)[OF g[symmetric] True om this] len show ?thesis by simp
      next
        case om: False
        with True "1.prems" g
        have "read_est_alleles n2 omit (curHap + 1) (acc @ [to_char x]) xs = (c, a, f')"
          by (subst (asm) read_est_alleles.simps) simp
        from "1.IH"(2)[OF g[symmetric] True om this] len show ?thesis by simp
      qed
    qed
  qed
  have eol: "length f' < length f" if "read_to_endline f = Some f'" for f f'
    using that by (induction f) (auto split: if_splits)
  have "ungetc x2 y = estG"
    using 2 by (auto simp: fgetc_def ungetc_def split: list.splits)
  with 2 have body: "locus_body opts st estG trueG = Some (Inr (xa, xb, yb))"
    by auto
  obtain i estG1 where s1: "skip_samples (2 * skipNumInEst opts) 0 estG = (i, estG1)"
    by (cases "skip_samples (2 * skipNumInEst opts) 0 estG")
  obtain c a estG2 where
    s2: "read_est_alleles (2 * numSamples opts) (omitIndSet opts) 0 [] estG1 = (c, a, estG2)"
    by (cases "read_est_alleles (2 * numSamples opts) (omitIndSet opts) 0 [] estG1")
  from body s1 s2 have "read_to_endline (unget_newline c estG2) = Some xb"
    by (auto simp: locus_body_def read_site_def Let_def
             split: sum.splits prod.splits option.splits if_splits)
  from eol[OF this] est[OF s2] skip[of "2 * skipNumInEst opts" 0 estG] s1
  have "length xb < length estG" by simp
  then show ?case by simp
qed

subsection \<open>Set-up and report (lines 78--146, 370--405)\<close>

text \<open>
  \<^verbatim>\<open>prevLocalAnc\<close> and \<^verbatim>\<open>hapmixFiles\<close> are allocated only with the option
  \<^verbatim>\<open>-l\<close>; without it they are never read.
\<close>

definition init_state :: "options \<Rightarrow> hapmix_record list list \<Rightarrow> state" where
  "init_state opts files =
     \<lparr>hapmixFiles = files,
      prevLocalAnc = replicate (numSamples opts) (-1),
      homologsInverted = replicate (numSamples opts) (-1),
      prevSwitchError = replicate (numSamples opts) 0,
      indivNumSwitches = replicate (numSamples opts) 0,
      numMissing = 0,
      numSwitchErrors = 0,
      totalHetSites = 0,
      numMarkers = 0,
      numAncClassSwitchErrors = replicate 4 0,
      totalAncClassHetSites = replicate 4 0,
      oneHapTruthWarn = False,
      stderr_out = []\<rparr>"

text \<open>
  \<^verbatim>\<open>(double) a / b\<close> for two counters: the exact quotient, or what IEEE division
  gives for a zero denominator.
\<close>

datatype quotient = Quotient rat | NotANumber | Infinite

definition ratio :: "nat \<Rightarrow> nat \<Rightarrow> quotient" where
  "ratio a b =
     (if b = 0 then (if a = 0 then NotANumber else Infinite)
      else Quotient (of_nat a / of_nat b))"

text \<open>One printed line \<^verbatim>\<open>"... %d / %d = %lf\n"\<close>.\<close>

type_synonym rate_line = "nat \<times> nat \<times> quotient"

record report =
  switch_line :: rate_line
  missing_line :: "rate_line option"
  anc_class_lines :: "rate_line list option"

definition rate_line_of :: "nat \<Rightarrow> nat \<Rightarrow> rate_line" where
  "rate_line_of a b = (a, b, ratio a b)"

definition final_blocks :: "options \<Rightarrow> state \<Rightarrow> message list" where
  "final_blocks opts st =
     (if verbose opts then
        map (\<lambda>samp. let locus = int (numMarkers st) - 1 in
               SwitchInfo samp (indivNumSwitches st ! samp) locus
                 (locus - prevSwitchError st ! samp))
            [0..<numSamples opts]
      else [])"

definition print_report :: "options \<Rightarrow> state \<Rightarrow> report" where
  "print_report opts st =
     (let denom1 = totalHetSites st;
          denom2 = numSamples opts * numMarkers st
      in \<lparr>switch_line = rate_line_of (numSwitchErrors st) denom1,
          missing_line =
            (if numMissing st > 0 then Some (rate_line_of (numMissing st) denom2) else None),
          anc_class_lines =
            (if useLocalAnc opts then
               Some (map (\<lambda>k. rate_line_of (numAncClassSwitchErrors st ! k)
                                  (totalAncClassHetSites st ! k)) [0, 1, 2, 3])
             else None)\<rparr>)"

text \<open>
  \<^verbatim>\<open>main\<close> after the files are open: the options, the HAPMIX files and the two
  genotype streams give the report and the final state.
\<close>

definition main :: "options \<Rightarrow> hapmix_record list list \<Rightarrow> string \<Rightarrow> string \<Rightarrow>
    (error + (report \<times> state)) option" where
  "main opts files estG trueG =
     (case main_loop opts (init_state opts files) estG trueG of
        None \<Rightarrow> None
      | Some (Inl e) \<Rightarrow> Some (Inl e)
      | Some (Inr st) \<Rightarrow>
          Some (Inr (print_report opts st,
                     st\<lparr>stderr_out := stderr_out st @ final_blocks opts st\<rparr>)))"

subsection \<open>The trio pairing file (lines 456--473)\<close>

text \<open>
  The file is the list of the pairs that \<^verbatim>\<open>fscanf(in, "%d %d", &id1, &id2)\<close> reads
  before it first fails. The assertion of line 464 reads \<^verbatim>\<open>otherParentIdx[id1]\<close>
  before line 465 checks the index.
\<close>

fun readTrioParentsPairs_loop ::
  "(int \<times> int) list \<Rightarrow> int list \<Rightarrow> nat \<Rightarrow> nat \<Rightarrow> error + (int list \<times> nat)" where
  "readTrioParentsPairs_loop [] tbl numPairs n = Inr (tbl, numPairs)"
| "readTrioParentsPairs_loop ((id1, id2) # rest) tbl numPairs n =
     (case arr_read tbl id1 of
        Inl e \<Rightarrow> Inl e
      | Inr v1 \<Rightarrow>
          if v1 \<noteq> -1 then Inl (AssertionFailed 464) else
     (case arr_read tbl id2 of
        Inl e \<Rightarrow> Inl e
      | Inr v2 \<Rightarrow>
          if v2 \<noteq> -1 then Inl (AssertionFailed 464)
          else if \<not> (id1 \<noteq> id2 \<and> id1 < int n \<and> id2 < int n) then Inl (AssertionFailed 465)
          else readTrioParentsPairs_loop rest
                 (tbl[nat id1 := id2, nat id2 := id1]) (numPairs + 1) n))"

text \<open>Lines 83--85 (\<open>tbl\<close> is \<^verbatim>\<open>otherParentIdx\<close>) with the body of \<^verbatim>\<open>readTrioParentsPairs\<close>.\<close>

definition readTrioParentsPairs :: "(int \<times> int) list \<Rightarrow> nat \<Rightarrow> error + int list" where
  "readTrioParentsPairs pairs n =
     (case readTrioParentsPairs_loop pairs (replicate n (-1)) 0 n of
        Inl e \<Rightarrow> Inl e
      | Inr (tbl, numPairs) \<Rightarrow>
          if numPairs * 2 = n then Inr tbl else Inl (AssertionFailed 470))"

declare skip_samples.simps [simp del] read_est_alleles.simps [simp del]
  read_true_alleles.simps [simp del] sample_loop.simps [simp del] main_loop.simps [simp del]

section \<open>Inputs of the scenarios\<close>

subsection \<open>Scenario A\<close>

text \<open>One sample, no option set.\<close>

definition optsA :: options where
  "optsA = \<lparr>numSamples = 1, skipNumInEst = 0, trioParentsInSuccession = False,
             otherParentIdx = None, omitIndSet = [], useLocalAnc = False, verbose = False\<rparr>"

text \<open>
  The state of the single sample of scenario A: loci read, orientation, locus of the last
  switch, switch errors counted and heterozygous sites counted. Without \<^verbatim>\<open>-l\<close> every
  site and switch falls in the last ancestry bucket.
\<close>

definition stateA :: "nat \<Rightarrow> int \<Rightarrow> int \<Rightarrow> nat \<Rightarrow> nat \<Rightarrow> state" where
  "stateA markers inverted lastSwitch switches hets =
     \<lparr>hapmixFiles = [],
      prevLocalAnc = [-1],
      homologsInverted = [inverted],
      prevSwitchError = [lastSwitch],
      indivNumSwitches = [switches],
      numMissing = 0,
      numSwitchErrors = switches,
      totalHetSites = hets,
      numMarkers = markers,
      numAncClassSwitchErrors = [0, 0, 0, switches],
      totalAncClassHetSites = [0, 0, 0, hets],
      oneHapTruthWarn = False,
      stderr_out = []\<rparr>"

section \<open>Notions used in the statements\<close>

text \<open>
  Everything of the state but the HAPMIX files and the previous ancestry class: the
  orientation, the counters and the diagnostics.
\<close>

definition tracker_unchanged :: "state \<Rightarrow> state \<Rightarrow> bool" where
  "tracker_unchanged st st' =
     (homologsInverted st' = homologsInverted st
      \<and> prevSwitchError st' = prevSwitchError st
      \<and> indivNumSwitches st' = indivNumSwitches st
      \<and> numMissing st' = numMissing st
      \<and> numSwitchErrors st' = numSwitchErrors st
      \<and> totalHetSites st' = totalHetSites st
      \<and> numMarkers st' = numMarkers st
      \<and> numAncClassSwitchErrors st' = numAncClassSwitchErrors st
      \<and> totalAncClassHetSites st' = totalAncClassHetSites st
      \<and> oneHapTruthWarn st' = oneHapTruthWarn st
      \<and> stderr_out st' = stderr_out st)"

subsection \<open>Two parents in succession\<close>

text \<open>Two samples, \<^verbatim>\<open>-t\<close>.\<close>

definition optsT :: options where
  "optsT = \<lparr>numSamples = 2, skipNumInEst = 0, trioParentsInSuccession = True,
             otherParentIdx = None, omitIndSet = [], useLocalAnc = False, verbose = False\<rparr>"

text \<open>One sample, \<^verbatim>\<open>-t\<close>: the last sample has no partner in the arrays.\<close>

definition optsT1 :: options where
  "optsT1 = \<lparr>numSamples = 1, skipNumInEst = 0, trioParentsInSuccession = True,
             otherParentIdx = None, omitIndSet = [], useLocalAnc = False, verbose = False\<rparr>"

text \<open>
  What the loader maintains in \<^verbatim>\<open>otherParentIdx\<close>: an entry is -1 or the index of
  another sample whose own entry points back.
\<close>

definition paired :: "nat \<Rightarrow> int list \<Rightarrow> bool" where
  "paired n tbl =
     (length tbl = n \<and>
      (\<forall>i. i < n \<longrightarrow> tbl ! i = -1 \<or>
         (0 \<le> tbl ! i \<and> tbl ! i < int n \<and> tbl ! i \<noteq> int i \<and> tbl ! nat (tbl ! i) = int i)))"

text \<open>Two samples, \<^verbatim>\<open>-p\<close> with the pairing file \<^verbatim>\<open>0 1\<close>.\<close>

definition optsP :: options where
  "optsP = \<lparr>numSamples = 2, skipNumInEst = 0, trioParentsInSuccession = False,
             otherParentIdx = Some [1, 0], omitIndSet = [], useLocalAnc = False, verbose = False\<rparr>"

text \<open>
  Between an earlier and a later state: the orientation array keeps its length, a set
  orientation (0 or 1) stays set, and an unset one (-1) is unset or set afterwards.
\<close>

definition orientation_kept :: "state \<Rightarrow> state \<Rightarrow> bool" where
  "orientation_kept st st' =
     (length (homologsInverted st') = length (homologsInverted st) \<and>
      (\<forall>s. s < length (homologsInverted st) \<longrightarrow>
         (homologsInverted st ! s = 0 \<or> homologsInverted st ! s = 1 \<longrightarrow>
            homologsInverted st' ! s = 0 \<or> homologsInverted st' ! s = 1) \<and>
         (homologsInverted st ! s = -1 \<longrightarrow>
            homologsInverted st' ! s = -1 \<or> homologsInverted st' ! s = 0
            \<or> homologsInverted st' ! s = 1)))"

text \<open>The same, for states whose per-sample arrays have one length.\<close>

definition orientation_inv :: "state \<Rightarrow> state \<Rightarrow> bool" where
  "orientation_inv st st' =
     (length (indivNumSwitches st) = length (homologsInverted st) \<longrightarrow>
      length (indivNumSwitches st') = length (homologsInverted st') \<and> orientation_kept st st')"

text \<open>
  Between an earlier and a later state: no counter decreases, the switch errors counted
  in between are at most the heterozygous sites counted in between, globally and for
  every sample, and the personal switch counts grow by as much as \<^verbatim>\<open>numSwitchErrors\<close>.
\<close>

definition switches_bounded :: "state \<Rightarrow> state \<Rightarrow> bool" where
  "switches_bounded st st' =
     (length (indivNumSwitches st') = length (indivNumSwitches st)
      \<and> numSwitchErrors st \<le> numSwitchErrors st'
      \<and> totalHetSites st \<le> totalHetSites st'
      \<and> numSwitchErrors st' - numSwitchErrors st \<le> totalHetSites st' - totalHetSites st
      \<and> sum_list (indivNumSwitches st) \<le> sum_list (indivNumSwitches st')
      \<and> sum_list (indivNumSwitches st') - sum_list (indivNumSwitches st) =
          numSwitchErrors st' - numSwitchErrors st
      \<and> (\<forall>s. s < length (indivNumSwitches st) \<longrightarrow>
             indivNumSwitches st ! s \<le> indivNumSwitches st' ! s
             \<and> indivNumSwitches st' ! s - indivNumSwitches st ! s \<le>
                 totalHetSites st' - totalHetSites st))"

text \<open>The same, for states with one personal switch count per sample.\<close>

definition switches_inv :: "options \<Rightarrow> state \<Rightarrow> state \<Rightarrow> bool" where
  "switches_inv opts st st' =
     (length (indivNumSwitches st) = numSamples opts \<longrightarrow> switches_bounded st st')"

subsection \<open>Two parents in succession with local ancestry\<close>

text \<open>Two samples, \<^verbatim>\<open>-t\<close> and \<^verbatim>\<open>-l\<close>; one HAPMIX record, confidently homozygous POP1.\<close>

definition optsTL :: options where
  "optsTL = \<lparr>numSamples = 2, skipNumInEst = 0, trioParentsInSuccession = True,
              otherParentIdx = None, omitIndSet = [], useLocalAnc = True, verbose = False\<rparr>"

definition recA :: hapmix_record where
  "recA = Some (1, 95 / 100, 3 / 100, 2 / 100)"

subsection \<open>The allele characters of a line\<close>

text \<open>
  The characters of a line that belong to samples not omitted, when the first character
  is haplotype \<open>h\<close> of the estimated file: character \<open>k\<close> belongs to sample
  \<open>(h + k) div 2\<close>.
\<close>

fun kept_from :: "nat list \<Rightarrow> nat \<Rightarrow> string \<Rightarrow> string" where
  "kept_from omit h [] = []"
| "kept_from omit h (c # cs) =
     (if h div 2 \<in> set omit then kept_from omit (h + 1) cs else c # kept_from omit (h + 1) cs)"

text \<open>
  The estimated alleles a line offers for comparison: what is left after the first
  \<open>2 * skipNumInEst\<close> characters and the omitted samples.
\<close>

definition est_alleles_on_line :: "options \<Rightarrow> string \<Rightarrow> string" where
  "est_alleles_on_line opts l =
     kept_from (omitIndSet opts) 0 (drop (nat (2 * skipNumInEst opts)) l)"

text \<open>The alphabet of the true stream (line 225).\<close>

definition true_allele_ok :: "char \<Rightarrow> bool" where
  "true_allele_ok c = (c = CHR ''0'' \<or> c = CHR ''1'' \<or> c = CHR ''9'')"

subsection \<open>Well-formed streams\<close>

text \<open>Every line of the stream ends with a newline.\<close>

definition newline_terminated :: "string \<Rightarrow> bool" where
  "newline_terminated f = (f = [] \<or> last f = CHR ''\<newline>'')"

text \<open>The number of lines of such a stream.\<close>

definition num_lines :: "string \<Rightarrow> nat" where
  "num_lines f = count_list f CHR ''\<newline>''"

subsection \<open>Inversion of a sample's estimated homologs\<close>

text \<open>Two neighbouring entries of a list exchanged; a list that lacks one of them is kept.\<close>

definition swap_cols :: "nat \<Rightarrow> 'a list \<Rightarrow> 'a list" where
  "swap_cols c l = (if c + 1 < length l then l[c := l ! (c + 1), c + 1 := l ! c] else l)"

text \<open>The two estimated alleles of sample \<open>s\<close> exchanged in \<^verbatim>\<open>allEstAlleles\<close>.\<close>

definition swap_sample :: "nat \<Rightarrow> string \<Rightarrow> string" where
  "swap_sample s E = swap_cols (s * 2) E"

text \<open>
  The estimated stream with the columns \<open>c\<close> and \<open>c + 1\<close> exchanged on every line,
  the last line included when it has no newline.
\<close>

function swap_stream :: "nat \<Rightarrow> string \<Rightarrow> string" where
  "swap_stream c f =
     swap_cols c (takeWhile (\<lambda>x. x \<noteq> CHR ''\<newline>'') f) @
       (case dropWhile (\<lambda>x. x \<noteq> CHR ''\<newline>'') f of
          [] \<Rightarrow> []
        | x # r \<Rightarrow> x # swap_stream c r)"
  by pat_completeness auto
termination
proof (relation "measure (\<lambda>(c, f). length f)", goal_cases)
  case 1
  show ?case by simp
next
  case (2 c f x r)
  have "length (dropWhile (\<lambda>x. x \<noteq> CHR ''\<newline>'') f) \<le> length f"
    by (rule length_dropWhile_le)
  with 2 show ?case by simp
qed

declare swap_stream.simps [simp del]

text \<open>
  The column of the first allele of the sample written at position \<open>j\<close> of a line of
  the estimated file, after the \<open>2 * skipNumInEst\<close> skipped characters, and the index
  this sample has in \<^verbatim>\<open>allEstAlleles\<close> once the omitted samples are left out.
\<close>

definition est_column :: "options \<Rightarrow> nat \<Rightarrow> nat" where
  "est_column opts j = nat (2 * skipNumInEst opts) + 2 * j"

definition kept_index :: "options \<Rightarrow> nat \<Rightarrow> nat" where
  "kept_index opts j = length (filter (\<lambda>k. k \<notin> set (omitIndSet opts)) [0..<j])"

text \<open>
  The other orientation: Aligned for Inverted and back, Unset stays Unset; and the state
  with the orientation of sample \<open>s\<close> replaced by the other one.
\<close>

definition flip :: "int \<Rightarrow> int" where
  "flip h = (if h = -1 then -1 else 1 - h)"

definition flip_orient :: "nat \<Rightarrow> state \<Rightarrow> state" where
  "flip_orient s st =
     st\<lparr>homologsInverted := (homologsInverted st)[s := flip (homologsInverted st ! s)]\<rparr>"

text \<open>The orientation of sample \<open>s\<close> is one of the three values the program writes.\<close>

definition orient_ok :: "nat \<Rightarrow> state \<Rightarrow> bool" where
  "orient_ok s st =
     (s < length (homologsInverted st) \<and>
      (homologsInverted st ! s = -1 \<or> homologsInverted st ! s = 0 \<or> homologsInverted st ! s = 1))"

text \<open>Two results that are both fatal, or both values and related.\<close>

definition both_fatal_or :: "('a \<Rightarrow> 'a \<Rightarrow> bool) \<Rightarrow> error + 'a \<Rightarrow> error + 'a \<Rightarrow> bool" where
  "both_fatal_or R r r' =
     (case r of
        Inl e \<Rightarrow> (case r' of Inl e' \<Rightarrow> True | Inr y \<Rightarrow> False)
      | Inr x \<Rightarrow> (case r' of Inl e' \<Rightarrow> False | Inr y \<Rightarrow> R x y))"

text \<open>
  Two iterations of the per-sample loop that leave the same way, with states that
  differ in the orientation of sample \<open>s\<close> only.
\<close>

definition same_flow_flipped :: "nat \<Rightarrow> flow \<times> state \<Rightarrow> flow \<times> state \<Rightarrow> bool" where
  "same_flow_flipped s x y = (fst y = fst x \<and> snd y = flip_orient s (snd x))"

text \<open>
  Two runs of \<^verbatim>\<open>main\<close> of which either both end normally, with the same report and
  with final states that differ in the orientation of sample \<open>s\<close> only, or neither
  does.
\<close>

definition completes_alike ::
  "nat \<Rightarrow> (error + report \<times> state) option \<Rightarrow> (error + report \<times> state) option \<Rightarrow> bool" where
  "completes_alike s a b =
     (case a of
        Some (Inr (rep, st)) \<Rightarrow> b = Some (Inr (rep, flip_orient s st))
      | _ \<Rightarrow> (case b of Some (Inr r) \<Rightarrow> False | _ \<Rightarrow> True))"

section \<open>Properties\<close>

subsection \<open>Scenario A\<close>

text \<open>
  C1. Estimated stream \<^verbatim>\<open>01\n10\n01\n\<close>, true stream \<^verbatim>\<open>01\n01\n10\n\<close>, one sample.
  Locus 1 sets the orientation to Aligned (0) and counts nothing; locus 2 counts one
  heterozygous site and one switch error and toggles the orientation to Inverted (1);
  locus 3 counts a second heterozygous site and no switch; the run ends with
  \<^verbatim>\<open>numSwitchErrors = 1\<close>, \<^verbatim>\<open>totalHetSites = 2\<close> and the printed rate 1/2.
\<close>

theorem C1_scenario_A:
  "locus_body optsA (init_state optsA [])
       ''01\<newline>10\<newline>01\<newline>'' ''01\<newline>01\<newline>10\<newline>'' =
     Some (Inr (stateA 1 0 0 0 0, ''10\<newline>01\<newline>'', ''01\<newline>10\<newline>''))
   \<and> locus_body optsA (stateA 1 0 0 0 0) ''10\<newline>01\<newline>'' ''01\<newline>10\<newline>'' =
     Some (Inr (stateA 2 1 1 1 1, ''01\<newline>'', ''10\<newline>''))
   \<and> locus_body optsA (stateA 2 1 1 1 1) ''01\<newline>'' ''10\<newline>'' =
     Some (Inr (stateA 3 1 1 1 2, [], []))
   \<and> main optsA [] ''01\<newline>10\<newline>01\<newline>'' ''01\<newline>01\<newline>10\<newline>'' =
     Some (Inr (\<lparr>switch_line = (1, 2, Quotient (1 / 2)), missing_line = None,
                  anc_class_lines = None\<rparr>,
                stateA 3 1 1 1 2))"
  by code_simp

subsection \<open>One iteration of the per-sample loop\<close>

lemma local_anc_class_unchanged:
  "local_anc_class opts samp st = Inr (cls, st1) \<Longrightarrow> tracker_unchanged st st1"
  by (auto simp: local_anc_class_def tracker_unchanged_def Let_def split: if_splits sum.splits)

lemma compare_sample_at_trio_check:
  assumes l: "local_anc_class opts samp st = Inr (cls, st1)"
    and a: "T ! (samp * 2) = CHR ''0'' \<or> T ! (samp * 2) = CHR ''1''"
      "T ! (samp * 2 + 1) = CHR ''0'' \<or> T ! (samp * 2 + 1) = CHR ''1''"
      "E ! (samp * 2) \<noteq> CHR ''9''" "E ! (samp * 2 + 1) \<noteq> CHR ''9''"
  shows "compare_sample opts E T samp st =
       (case (if trioCheckApplies opts samp
              then tripleHet T [T ! (samp * 2), T ! (samp * 2 + 1)] (otherParentOf opts samp)
              else Inr False) of
          Inl e \<Rightarrow> Inl e
        | Inr True \<Rightarrow> Inr (TripleHet (trioParentsInSuccession opts), st1)
        | Inr False \<Rightarrow>
            compare_alleles opts samp cls [E ! (samp * 2), E ! (samp * 2 + 1)]
              [T ! (samp * 2), T ! (samp * 2 + 1)] st1)"
proof -
  from a have b: "T ! (samp * 2) \<noteq> CHR ''9''" "T ! (samp * 2 + 1) \<noteq> CHR ''9''" by auto
  show ?thesis
    using l a(3,4) b a(1,2)
    by (elim disjE; simp add: compare_sample_def Let_def cong: sum.case_cong bool.case_cong if_cong)
qed

lemma tripleHet_in_bounds:
  "0 \<le> p \<Longrightarrow> p * 2 + 1 < int (length T) \<Longrightarrow>
   tripleHet T [t0, t1] p =
     Inr (t0 \<noteq> t1 \<and> T ! nat (p * 2) \<noteq> T ! nat (p * 2 + 1) \<and> t0 \<noteq> T ! nat (p * 2))"
  by (simp add: tripleHet_def arr_read_def)

lemma compare_alleles_flow:
  "compare_alleles opts samp cls est tru st = Inr (fl, st') \<Longrightarrow> fl = MissingEstimate \<or> fl = Compared"
  by (auto simp: compare_alleles_def split: if_splits sum.splits)

lemma compare_sample_not_applies:
  "\<not> trioCheckApplies opts samp \<Longrightarrow> compare_sample opts E T samp st \<noteq> Inr (TripleHet b, st')"
  by (auto simp: compare_sample_def Let_def split: sum.splits if_splits dest: compare_alleles_flow)

subsection \<open>Trio ambiguity filter\<close>

text \<open>
  C2. The sample \<open>samp\<close> reaches the trio check: its ancestry record (if any) was read,
  its two true alleles are 0 or 1 and its estimated alleles are not \<^verbatim>\<open>'9'\<close>. Its
  partner \<open>p\<close> lies inside the true-allele array. Then the iteration ends at the
  triple-het \<^verbatim>\<open>continue\<close> exactly when the check applies and the sample is
  heterozygous, the partner is heterozygous and their first true alleles differ. The
  state after it is the state after the ancestry read: orientation, counters and
  diagnostics are untouched. The sample loop goes on at \<open>samp + 2\<close> in the in-succession
  convention and at \<open>samp + 1\<close> with a pairing table. In the in-succession convention
  the partner is \<open>samp + 1\<close>, and without a pairing table the check applies at the even
  indices only.
\<close>

theorem C2_trio_filter:
  assumes anc: "local_anc_class opts samp st = Inr (cls, st1)"
    and t0: "T ! (samp * 2) = CHR ''0'' \<or> T ! (samp * 2) = CHR ''1''"
    and t1: "T ! (samp * 2 + 1) = CHR ''0'' \<or> T ! (samp * 2 + 1) = CHR ''1''"
    and e0: "E ! (samp * 2) \<noteq> CHR ''9''"
    and e1: "E ! (samp * 2 + 1) \<noteq> CHR ''9''"
    and p: "otherParentOf opts samp = int p" "p * 2 + 1 < length T"
    and amb: "ambiguous = (T ! (samp * 2) \<noteq> T ! (samp * 2 + 1) \<and> T ! (p * 2) \<noteq> T ! (p * 2 + 1)
                \<and> T ! (samp * 2) \<noteq> T ! (p * 2))"
  shows "(trioCheckApplies opts samp \<and> ambiguous \<longrightarrow>
            compare_sample opts E T samp st = Inr (TripleHet (trioParentsInSuccession opts), st1)
            \<and> tracker_unchanged st st1
            \<and> (samp < numSamples opts \<longrightarrow>
                 sample_loop opts E T samp st =
                 sample_loop opts E T (if trioParentsInSuccession opts then samp + 2 else samp + 1) st1))
         \<and> (\<not> (trioCheckApplies opts samp \<and> ambiguous) \<longrightarrow>
              (\<forall>b st'. compare_sample opts E T samp st \<noteq> Inr (TripleHet b, st')))
         \<and> (trioParentsInSuccession opts \<longrightarrow> p = samp + 1)
         \<and> (trioParentsInSuccession opts \<and> otherParentIdx opts = None \<longrightarrow>
              trioCheckApplies opts samp = (samp mod 2 = 0))"
proof -
  note cs = compare_sample_at_trio_check[OF anc t0 t1 e0 e1]
  have th: "tripleHet T [T ! (samp * 2), T ! (samp * 2 + 1)] (otherParentOf opts samp) = Inr ambiguous"
    using p amb tripleHet_in_bounds[of "int p" T] by (simp add: nat_mult_distrib nat_add_distrib)
  have 1: "compare_sample opts E T samp st = Inr (TripleHet (trioParentsInSuccession opts), st1)"
    if "trioCheckApplies opts samp" ambiguous
    using that cs th by simp
  have 2: "sample_loop opts E T samp st =
           sample_loop opts E T (if trioParentsInSuccession opts then samp + 2 else samp + 1) st1"
    if "trioCheckApplies opts samp" ambiguous "samp < numSamples opts"
    using 1[OF that(1,2)] that(3)
    by (subst sample_loop.simps) (simp add: next_samp_def)
  have 3: "compare_sample opts E T samp st \<noteq> Inr (TripleHet b, st')"
    if "\<not> (trioCheckApplies opts samp \<and> ambiguous)" for b st'
  proof (cases "trioCheckApplies opts samp")
    case False
    then show ?thesis by (rule compare_sample_not_applies)
  next
    case True
    with that have "\<not> ambiguous" by simp
    with True cs th show ?thesis by (auto dest: compare_alleles_flow)
  qed
  have 4: "p = samp + 1" if "trioParentsInSuccession opts"
    using that p(1) by (simp add: otherParentOf_def)
  have 5: "trioCheckApplies opts samp = (samp mod 2 = 0)"
    if "trioParentsInSuccession opts \<and> otherParentIdx opts = None"
    using that by (simp add: trioCheckApplies_def)
  from 1 2 3 4 5 local_anc_class_unchanged[OF anc] show ?thesis by blast
qed

theorem C2_trio_filter_witness:
  "compare_sample optsT ''0101'' ''0110'' 0 (init_state optsT []) =
     Inr (TripleHet True, init_state optsT [])
   \<and> sample_loop optsT ''0101'' ''0110'' 0 (init_state optsT []) =
     sample_loop optsT ''0101'' ''0110'' 2 (init_state optsT [])
   \<and> trioCheckApplies optsT 0"
proof -
  have anc: "local_anc_class optsT 0 (init_state optsT []) = Inr (-1, init_state optsT [])"
    by (simp add: local_anc_class_def optsT_def)
  have p: "otherParentOf optsT 0 = int 1" by (simp add: otherParentOf_def optsT_def)
  have ap: "trioCheckApplies optsT 0" by (simp add: trioCheckApplies_def optsT_def)
  have n: "0 < numSamples optsT" "trioParentsInSuccession optsT" by (simp_all add: optsT_def)
  from C2_trio_filter[OF anc _ _ _ _ p _ refl, of "''0110''" "''0101''"] ap n
  show ?thesis by (simp add: numeral_2_eq_2)
qed

subsection \<open>The partner's entries in the in-succession convention\<close>

lemma tripleHet_out_of_bounds:
  "t0 \<noteq> t1 \<Longrightarrow> int (length T) \<le> p * 2 + 1 \<Longrightarrow> tripleHet T [t0, t1] p = Inl OutOfBounds"
  by (auto simp: tripleHet_def arr_read_def split: sum.splits)

lemma tripleHet_homozygous: "tripleHet T [t, t] p = Inr False"
  by (simp add: tripleHet_def)

text \<open>
  C9. With \<^verbatim>\<open>-t\<close> the partner of \<open>samp\<close> is \<open>samp + 1\<close> and the trio check reads
  \<^verbatim>\<open>allTrueAlleles[2*(samp+1)]\<close> and \<^verbatim>\<open>allTrueAlleles[2*(samp+1)+1]\<close>. No check at
  an even index below \<open>numSamples\<close> reads outside an array of \<open>2 * numSamples\<close> entries,
  whatever the array holds, exactly when \<open>numSamples\<close> is even. When \<open>numSamples\<close> is
  odd the last index \<open>numSamples - 1\<close> is even, and the check there reads past the end
  as soon as it reads the partner at all, which \<^verbatim>\<open>&&\<close> lets it do when the two true
  alleles of the last sample differ; the iteration of that sample then ends in the
  out-of-bounds read.
\<close>

theorem C9_partner_bounds:
  assumes succ: "trioParentsInSuccession opts"
  shows "((\<forall>samp T. samp < numSamples opts \<and> samp mod 2 = 0 \<and> length T = 2 * numSamples opts \<longrightarrow>
            tripleHet T [T ! (samp * 2), T ! (samp * 2 + 1)] (otherParentOf opts samp)
              \<noteq> Inl OutOfBounds)
          = even (numSamples opts))
       \<and> (odd (numSamples opts) \<and> length T = 2 * numSamples opts
            \<and> T ! ((numSamples opts - 1) * 2) \<noteq> T ! ((numSamples opts - 1) * 2 + 1) \<longrightarrow>
          (numSamples opts - 1) mod 2 = 0
          \<and> tripleHet T [T ! ((numSamples opts - 1) * 2), T ! ((numSamples opts - 1) * 2 + 1)]
               (otherParentOf opts (numSamples opts - 1)) = Inl OutOfBounds)
       \<and> (odd (numSamples opts) \<and> length T = 2 * numSamples opts
            \<and> local_anc_class opts (numSamples opts - 1) st = Inr (cls, st1)
            \<and> T ! ((numSamples opts - 1) * 2) \<in> {CHR ''0'', CHR ''1''}
            \<and> T ! ((numSamples opts - 1) * 2 + 1) \<in> {CHR ''0'', CHR ''1''}
            \<and> T ! ((numSamples opts - 1) * 2) \<noteq> T ! ((numSamples opts - 1) * 2 + 1)
            \<and> E ! ((numSamples opts - 1) * 2) \<noteq> CHR ''9''
            \<and> E ! ((numSamples opts - 1) * 2 + 1) \<noteq> CHR ''9'' \<longrightarrow>
          compare_sample opts E T (numSamples opts - 1) st = Inl OutOfBounds)"
proof -
  let ?n = "numSamples opts"
  have op: "otherParentOf opts samp = int samp + 1" for samp
    using succ by (simp add: otherParentOf_def)
  have odd_last: "(?n - 1) mod 2 = 0 \<and>
      tripleHet T [T ! ((?n - 1) * 2), T ! ((?n - 1) * 2 + 1)] (otherParentOf opts (?n - 1))
        = Inl OutOfBounds"
    if "odd ?n" "length T = 2 * ?n" "T ! ((?n - 1) * 2) \<noteq> T ! ((?n - 1) * 2 + 1)" for T
  proof -
    from that(1) have pos: "0 < ?n" by (cases ?n) auto
    with that(1) have "(?n - 1) mod 2 = 0" by presburger
    moreover have "int (length T) \<le> (int (?n - 1) + 1) * 2 + 1" using that(2) pos by simp
    ultimately show ?thesis using that(3) by (simp add: op tripleHet_out_of_bounds)
  qed
  have even_ok: "tripleHet T [T ! (samp * 2), T ! (samp * 2 + 1)] (otherParentOf opts samp)
                   \<noteq> Inl OutOfBounds"
    if "even ?n" "samp < ?n" "samp mod 2 = 0" "length T = 2 * ?n" for samp T
  proof -
    from that(1,2,3) have "samp + 1 < ?n" by presburger
    then have "(int samp + 1) * 2 + 1 < int (length T)" using that(4) by simp
    then show ?thesis by (simp add: op tripleHet_def arr_read_def)
  qed
  have iff: "(\<forall>samp T. samp < ?n \<and> samp mod 2 = 0 \<and> length T = 2 * ?n \<longrightarrow>
            tripleHet T [T ! (samp * 2), T ! (samp * 2 + 1)] (otherParentOf opts samp)
              \<noteq> Inl OutOfBounds) = even ?n"
  proof (cases "even ?n")
    case True
    then have "tripleHet T [T ! (samp * 2), T ! (samp * 2 + 1)] (otherParentOf opts samp)
                 \<noteq> Inl OutOfBounds"
      if "samp < ?n \<and> samp mod 2 = 0 \<and> length T = 2 * ?n" for samp T
      using that even_ok[of samp T] by simp
    with True show ?thesis by simp
  next
    case False
    then have pos: "0 < ?n" by (cases ?n) auto
    define T0 where "T0 = map (\<lambda>i. if even i then CHR ''0'' else CHR ''1'') [0..<2 * ?n]"
    have len: "length T0 = 2 * ?n" by (simp add: T0_def)
    have i0: "(?n - 1) * 2 < 2 * ?n" and i1: "(?n - 1) * 2 + 1 < 2 * ?n" using pos by auto
    have "T0 ! ((?n - 1) * 2) = CHR ''0''" "T0 ! ((?n - 1) * 2 + 1) = CHR ''1''"
      unfolding T0_def using i0 i1 by (simp_all only: nth_map length_upt nth_upt minus_nat.diff_0) simp_all
    then have "T0 ! ((?n - 1) * 2) \<noteq> T0 ! ((?n - 1) * 2 + 1)" by simp
    from odd_last[OF _ len this] False pos
    have "\<not> (?n - 1 < ?n \<and> (?n - 1) mod 2 = 0 \<and> length T0 = 2 * ?n \<longrightarrow>
            tripleHet T0 [T0 ! ((?n - 1) * 2), T0 ! ((?n - 1) * 2 + 1)]
              (otherParentOf opts (?n - 1)) \<noteq> Inl OutOfBounds)"
      using len by simp
    then have "\<not> (\<forall>samp T. samp < ?n \<and> samp mod 2 = 0 \<and> length T = 2 * ?n \<longrightarrow>
            tripleHet T [T ! (samp * 2), T ! (samp * 2 + 1)] (otherParentOf opts samp)
              \<noteq> Inl OutOfBounds)"
      by (intro notI) (erule allE[of _ "?n - 1"], erule allE[of _ T0], simp)
    with False show ?thesis by simp
  qed
  have cmp: "compare_sample opts E T (?n - 1) st = Inl OutOfBounds"
    if "odd ?n" "length T = 2 * ?n" "local_anc_class opts (?n - 1) st = Inr (cls, st1)"
       "T ! ((?n - 1) * 2) \<in> {CHR ''0'', CHR ''1''}"
       "T ! ((?n - 1) * 2 + 1) \<in> {CHR ''0'', CHR ''1''}"
       "T ! ((?n - 1) * 2) \<noteq> T ! ((?n - 1) * 2 + 1)"
       "E ! ((?n - 1) * 2) \<noteq> CHR ''9''" "E ! ((?n - 1) * 2 + 1) \<noteq> CHR ''9''"
  proof -
    from odd_last[OF that(1,2,6)] have ev: "(?n - 1) mod 2 = 0"
      and oob: "tripleHet T [T ! ((?n - 1) * 2), T ! ((?n - 1) * 2 + 1)]
                  (otherParentOf opts (?n - 1)) = Inl OutOfBounds" by simp_all
    have ap: "trioCheckApplies opts (?n - 1)" using succ ev by (simp add: trioCheckApplies_def)
    from that(4,5) have t: "T ! ((?n - 1) * 2) = CHR ''0'' \<or> T ! ((?n - 1) * 2) = CHR ''1''"
      "T ! ((?n - 1) * 2 + 1) = CHR ''0'' \<or> T ! ((?n - 1) * 2 + 1) = CHR ''1''" by auto
    from compare_sample_at_trio_check[OF that(3) t that(7,8)] ap oob show ?thesis by simp
  qed
  from iff odd_last cmp show ?thesis by blast
qed

theorem C9_partner_bounds_witness:
  "tripleHet ''01'' ''01'' (otherParentOf optsT1 0) = Inl OutOfBounds
   \<and> compare_sample optsT1 ''01'' ''01'' 0 (init_state optsT1 []) = Inl OutOfBounds
   \<and> odd (numSamples optsT1)
   \<and> tripleHet ''0110'' ''01'' (otherParentOf optsT 0) \<noteq> Inl OutOfBounds
   \<and> even (numSamples optsT)"
proof -
  have s1: "trioParentsInSuccession optsT1" and s2: "trioParentsInSuccession optsT"
    by (simp_all add: optsT1_def optsT_def)
  have n1: "numSamples optsT1 = 1" and n2: "numSamples optsT = 2"
    by (simp_all add: optsT1_def optsT_def)
  have anc: "local_anc_class optsT1 0 (init_state optsT1 []) = Inr (-1, init_state optsT1 [])"
    by (simp add: local_anc_class_def optsT1_def)
  from C9_partner_bounds[OF s1, of "''01''" "init_state optsT1 []" "-1" "init_state optsT1 []" "''01''"]
  have a: "tripleHet ''01'' ''01'' (otherParentOf optsT1 0) = Inl OutOfBounds"
    and b: "compare_sample optsT1 ''01'' ''01'' 0 (init_state optsT1 []) = Inl OutOfBounds"
    using anc by (simp_all add: n1)
  from C9_partner_bounds[OF s2, of "[]" "init_state optsT []" 0 "init_state optsT []" "[]"]
  have "\<forall>samp T. samp < 2 \<and> samp mod 2 = 0 \<and> length T = 4 \<longrightarrow>
            tripleHet T [T ! (samp * 2), T ! (samp * 2 + 1)] (otherParentOf optsT samp)
              \<noteq> Inl OutOfBounds"
    by (simp add: n2)
  from this[rule_format, of 0 "''0110''"]
  have c: "tripleHet ''0110'' ''01'' (otherParentOf optsT 0) \<noteq> Inl OutOfBounds" by simp
  from a b c show ?thesis by (simp add: n1 n2)
qed

subsection \<open>The pairing table\<close>

lemma paired_update:
  assumes inv: "paired n tbl"
    and r1: "arr_read tbl id1 = Inr (-1)" and r2: "arr_read tbl id2 = Inr (-1)"
    and ne: "id1 \<noteq> id2"
  shows "paired n (tbl[nat id1 := id2, nat id2 := id1])"
    and "card {i. i < n \<and> (tbl[nat id1 := id2, nat id2 := id1]) ! i \<noteq> -1}
           = card {i. i < n \<and> tbl ! i \<noteq> -1} + 2"
proof -
  from inv have len: "length tbl = n" by (simp add: paired_def)
  from r1 len have b1: "0 \<le> id1" "nat id1 < n" "tbl ! nat id1 = -1"
    by (auto simp: arr_read_def split: if_splits)
  from r2 len have b2: "0 \<le> id2" "nat id2 < n" "tbl ! nat id2 = -1"
    by (auto simp: arr_read_def split: if_splits)
  from ne b1 b2 have nne: "nat id1 \<noteq> nat id2" by auto
  let ?t = "tbl[nat id1 := id2, nat id2 := id1]"
  have nth: "?t ! i = (if i = nat id2 then id1 else if i = nat id1 then id2 else tbl ! i)"
    if "i < n" for i
    using that len by (simp add: nth_list_update)
  from b1 b2 have lt: "id1 < int n" "id2 < int n" by linarith+
  have v: "?t ! nat id1 = id2" "?t ! nat id2 = id1"
    using nth[of "nat id1"] nth[of "nat id2"] b1 b2 nne by simp_all
  show "paired n ?t"
    unfolding paired_def
  proof (intro conjI allI impI)
    show "length ?t = n" using len by simp
  next
    fix i assume i: "i < n"
    consider "i = nat id1" | "i = nat id2" | "i \<noteq> nat id1" "i \<noteq> nat id2" by blast
    then show "?t ! i = -1 \<or>
         (0 \<le> ?t ! i \<and> ?t ! i < int n \<and> ?t ! i \<noteq> int i \<and> ?t ! nat (?t ! i) = int i)"
    proof cases
      case 1
      with v b1 b2 ne lt show ?thesis by auto
    next
      case 2
      with v b1 b2 ne lt show ?thesis by auto
    next
      case 3
      show ?thesis
      proof (cases "tbl ! i = -1")
        case True
        with 3 i show ?thesis by (simp add: nth)
      next
        case False
        with inv i have p: "0 \<le> tbl ! i" "tbl ! i < int n" "tbl ! i \<noteq> int i"
          "tbl ! nat (tbl ! i) = int i"
          by (auto simp: paired_def)
        then have "nat (tbl ! i) < n" by simp
        moreover from p(4) b1(3) b2(3) have "nat (tbl ! i) \<noteq> nat id1" "nat (tbl ! i) \<noteq> nat id2"
          by auto
        ultimately show ?thesis using 3 i p by (simp add: nth)
      qed
    qed
  qed
  have ne1: "(?t ! i \<noteq> -1) = (tbl ! i \<noteq> -1 \<or> i = nat id1 \<or> i = nat id2)" if "i < n" for i
    using nth[OF that] b1 b2 by auto
  have "{i. i < n \<and> ?t ! i \<noteq> -1} = {i. i < n \<and> tbl ! i \<noteq> -1} \<union> {nat id1, nat id2}"
    using b1(2) b2(2) ne1 by blast
  moreover have "{i. i < n \<and> tbl ! i \<noteq> -1} \<inter> {nat id1, nat id2} = {}"
    using b1 b2 by auto
  moreover have "finite {i. i < n \<and> tbl ! i \<noteq> -1}" by simp
  ultimately show "card {i. i < n \<and> ?t ! i \<noteq> -1} = card {i. i < n \<and> tbl ! i \<noteq> -1} + 2"
    using nne by (simp add: card_Un_disjoint)
qed

lemma readTrioParentsPairs_loop_paired:
  "readTrioParentsPairs_loop pairs tbl numPairs n = Inr (tbl', numPairs') \<Longrightarrow>
   paired n tbl \<Longrightarrow> card {i. i < n \<and> tbl ! i \<noteq> -1} = 2 * numPairs \<Longrightarrow>
   paired n tbl' \<and> card {i. i < n \<and> tbl' ! i \<noteq> -1} = 2 * numPairs'"
proof (induction pairs tbl numPairs n rule: readTrioParentsPairs_loop.induct)
  case (1 tbl numPairs n)
  then show ?case by simp
next
  case (2 id1 id2 rest tbl numPairs n)
  from "2.prems"(1) have r1: "arr_read tbl id1 = Inr (-1)"
    by (auto split: sum.splits if_splits)
  with "2.prems"(1) have r2: "arr_read tbl id2 = Inr (-1)"
    by (auto split: sum.splits if_splits)
  from "2.prems"(1) r1 r2 have ne: "id1 \<noteq> id2" "id1 < int n" "id2 < int n"
    by (auto split: if_splits)
  from "2.prems"(1) r1 r2 ne
  have rec: "readTrioParentsPairs_loop rest (tbl[nat id1 := id2, nat id2 := id1]) (numPairs + 1) n
               = Inr (tbl', numPairs')"
    by simp
  from paired_update[OF "2.prems"(2) r1 r2 ne(1)] "2.prems"(3)
  have "paired n (tbl[nat id1 := id2, nat id2 := id1])"
    "card {i. i < n \<and> (tbl[nat id1 := id2, nat id2 := id1]) ! i \<noteq> -1} = 2 * (numPairs + 1)"
    by simp_all
  from "2.IH"[OF r1 _ r2 _ _ rec this] ne show ?case by simp
qed

lemma readTrioParentsPairs_paired:
  assumes "readTrioParentsPairs pairs n = Inr tbl" and "s < n"
  shows "length tbl = n \<and> 0 \<le> tbl ! s \<and> tbl ! s < int n \<and> tbl ! s \<noteq> int s
         \<and> tbl ! nat (tbl ! s) = int s"
proof -
  from assms(1) obtain numPairs where
    l: "readTrioParentsPairs_loop pairs (replicate n (-1)) 0 n = Inr (tbl, numPairs)"
    and np: "numPairs * 2 = n"
    by (auto simp: readTrioParentsPairs_def split: sum.splits if_splits)
  have "paired n (replicate n (-1))" by (simp add: paired_def)
  moreover have "card {i. i < n \<and> replicate n (-1::int) ! i \<noteq> -1} = 2 * 0" by simp
  ultimately have p: "paired n tbl" and c: "card {i. i < n \<and> tbl ! i \<noteq> -1} = 2 * numPairs"
    using readTrioParentsPairs_loop_paired[OF l] by simp_all
  have "{i. i < n \<and> tbl ! i \<noteq> -1} = {i. i < n}"
  proof (rule card_subset_eq)
    show "card {i. i < n \<and> tbl ! i \<noteq> -1} = card {i. i < n}" using c np by simp
  qed auto
  with assms(2) have "tbl ! s \<noteq> -1" by blast
  with p assms(2) show ?thesis by (auto simp: paired_def)
qed


lemma compare_sample_TripleHetD:
  assumes "compare_sample opts E T samp st = Inr (TripleHet b, st')"
  shows "trioCheckApplies opts samp
         \<and> tripleHet T [T ! (samp * 2), T ! (samp * 2 + 1)] (otherParentOf opts samp) = Inr True
         \<and> b = trioParentsInSuccession opts
         \<and> (\<exists>cls. local_anc_class opts samp st = Inr (cls, st'))"
proof -
  from assms obtain cls st1 where l: "local_anc_class opts samp st = Inr (cls, st1)"
    by (auto simp: compare_sample_def split: sum.splits)
  from assms l have t: "T ! (samp * 2) = CHR ''0'' \<or> T ! (samp * 2) = CHR ''1''"
      "T ! (samp * 2 + 1) = CHR ''0'' \<or> T ! (samp * 2 + 1) = CHR ''1''"
    by (auto simp: compare_sample_def Let_def split: if_splits)
  from assms l t have e: "E ! (samp * 2) \<noteq> CHR ''9''" "E ! (samp * 2 + 1) \<noteq> CHR ''9''"
    by (auto simp: compare_sample_def Let_def split: if_splits)
  from compare_sample_at_trio_check[OF l t e] assms l show ?thesis
    by (auto split: if_splits sum.splits bool.splits
             dest: compare_alleles_flow compare_alleles_flow[OF sym])
qed

text \<open>
  C10. With a pairing table loaded by \<^verbatim>\<open>readTrioParentsPairs\<close> (and no \<^verbatim>\<open>-t\<close>),
  the partner \<open>p\<close> of a sample \<open>s\<close> is another sample whose partner is \<open>s\<close>, the trio
  check applies to both, and the triple-het condition evaluated for \<open>s\<close> against \<open>p\<close>
  equals the condition evaluated for \<open>p\<close> against \<open>s\<close>. So when the iteration of \<open>s\<close>
  ends at the triple-het \<^verbatim>\<open>continue\<close>, the iteration of \<open>p\<close>, in whatever state it
  starts, ends there too provided it reaches the check (its ancestry record is read,
  its true alleles are 0 or 1, its estimated alleles are not \<^verbatim>\<open>'9'\<close>); the loop
  counter is then advanced by one only.
\<close>

theorem C10_pairing_symmetric:
  assumes tbl: "readTrioParentsPairs pairs (numSamples opts) = Inr tbl"
    and opts: "otherParentIdx opts = Some tbl" "\<not> trioParentsInSuccession opts"
    and len: "length T = 2 * numSamples opts"
    and s: "s < numSamples opts"
    and p: "p = nat (otherParentOf opts s)"
  shows "otherParentOf opts s = int p \<and> p < numSamples opts \<and> p \<noteq> s
         \<and> otherParentOf opts p = int s
         \<and> trioCheckApplies opts s \<and> trioCheckApplies opts p
         \<and> tripleHet T [T ! (s * 2), T ! (s * 2 + 1)] (otherParentOf opts s) =
             tripleHet T [T ! (p * 2), T ! (p * 2 + 1)] (otherParentOf opts p)
         \<and> ((\<exists>b st'. compare_sample opts E T s st = Inr (TripleHet b, st'))
              \<and> local_anc_class opts p sta = Inr (cls, stb)
              \<and> T ! (p * 2) \<in> {CHR ''0'', CHR ''1''} \<and> T ! (p * 2 + 1) \<in> {CHR ''0'', CHR ''1''}
              \<and> E ! (p * 2) \<noteq> CHR ''9'' \<and> E ! (p * 2 + 1) \<noteq> CHR ''9'' \<longrightarrow>
            compare_sample opts E T p sta = Inr (TripleHet False, stb)
            \<and> tracker_unchanged sta stb
            \<and> next_samp (TripleHet False) p = p + 1)"
proof -
  let ?n = "numSamples opts"
  have op: "otherParentOf opts k = tbl ! k" for k
    using opts by (simp add: otherParentOf_def)
  from readTrioParentsPairs_paired[OF tbl s] p
  have ps: "tbl ! s = int p" "p < ?n" "p \<noteq> s" "tbl ! p = int s"
    by (auto simp: op)
  have ap: "trioCheckApplies opts k" for k using opts by (simp add: trioCheckApplies_def)
  have th: "tripleHet T [T ! (a * 2), T ! (a * 2 + 1)] (int b) =
      Inr (T ! (a * 2) \<noteq> T ! (a * 2 + 1) \<and> T ! (b * 2) \<noteq> T ! (b * 2 + 1)
           \<and> T ! (a * 2) \<noteq> T ! (b * 2))"
    if "b < ?n" for a b
    using that len tripleHet_in_bounds[of "int b" T "T ! (a * 2)" "T ! (a * 2 + 1)"]
    by (simp add: nat_mult_distrib nat_add_distrib)
  have sym: "tripleHet T [T ! (s * 2), T ! (s * 2 + 1)] (otherParentOf opts s) =
             tripleHet T [T ! (p * 2), T ! (p * 2 + 1)] (otherParentOf opts p)"
    using th[OF ps(2), of s] th[OF s, of p] ps by (auto simp: op)
  have skip: "compare_sample opts E T p sta = Inr (TripleHet False, stb)
            \<and> tracker_unchanged sta stb \<and> next_samp (TripleHet False) p = p + 1"
    if "\<exists>b st'. compare_sample opts E T s st = Inr (TripleHet b, st')"
       "local_anc_class opts p sta = Inr (cls, stb)"
       "T ! (p * 2) \<in> {CHR ''0'', CHR ''1''}" "T ! (p * 2 + 1) \<in> {CHR ''0'', CHR ''1''}"
       "E ! (p * 2) \<noteq> CHR ''9''" "E ! (p * 2 + 1) \<noteq> CHR ''9''"
  proof -
    from that(1) compare_sample_TripleHetD
    have "tripleHet T [T ! (s * 2), T ! (s * 2 + 1)] (otherParentOf opts s) = Inr True"
      by blast
    with sym have tp: "tripleHet T [T ! (p * 2), T ! (p * 2 + 1)] (otherParentOf opts p) = Inr True"
      by simp
    from that(3,4) have t: "T ! (p * 2) = CHR ''0'' \<or> T ! (p * 2) = CHR ''1''"
      "T ! (p * 2 + 1) = CHR ''0'' \<or> T ! (p * 2 + 1) = CHR ''1''" by auto
    from compare_sample_at_trio_check[OF that(2) t that(5,6)] tp ap[of p] opts(2)
    have "compare_sample opts E T p sta = Inr (TripleHet False, stb)" by simp
    with local_anc_class_unchanged[OF that(2)] show ?thesis by (simp add: next_samp_def)
  qed
  from ps ap sym skip show ?thesis by (simp add: op)
qed

theorem C10_pairing_symmetric_witness:
  "readTrioParentsPairs [(0, 1)] 2 = Inr [1, 0]
   \<and> otherParentOf optsP 0 = 1 \<and> otherParentOf optsP 1 = 0
   \<and> compare_sample optsP ''0101'' ''0110'' 0 (init_state optsP []) =
       Inr (TripleHet False, init_state optsP [])
   \<and> compare_sample optsP ''0101'' ''0110'' 1 (init_state optsP []) =
       Inr (TripleHet False, init_state optsP [])"
proof -
  have tbl: "readTrioParentsPairs [(0, 1)] (numSamples optsP) = Inr [1, 0]"
    by (simp add: readTrioParentsPairs_def optsP_def arr_read_def numeral_2_eq_2)
  have o: "otherParentIdx optsP = Some [1, 0]" "\<not> trioParentsInSuccession optsP"
    "numSamples optsP = 2" "otherParentOf optsP 0 = 1" "otherParentOf optsP 1 = 0"
    by (simp_all add: optsP_def otherParentOf_def)
  have anc: "local_anc_class optsP k (init_state optsP []) = Inr (-1, init_state optsP [])" for k
    by (simp add: local_anc_class_def optsP_def)
  have c0: "compare_sample optsP ''0101'' ''0110'' 0 (init_state optsP []) =
       Inr (TripleHet False, init_state optsP [])"
    by (simp add: compare_sample_def anc trioCheckApplies_def o tripleHet_def arr_read_def)
  from c0 have ex: "\<exists>b st'. compare_sample optsP ''0101'' ''0110'' 0 (init_state optsP []) =
       Inr (TripleHet b, st')" by blast
  from C10_pairing_symmetric[where opts = optsP and T = "''0110''" and s = 0 and p = 1
      and E = "''0101''" and st = "init_state optsP []" and sta = "init_state optsP []"
      and cls = "-1" and stb = "init_state optsP []", OF tbl o(1,2)] ex anc[of 1]
  have "compare_sample optsP ''0101'' ''0110'' 1 (init_state optsP []) =
       Inr (TripleHet False, init_state optsP [])"
    by (simp add: o)
  with tbl o c0 show ?thesis by simp
qed

subsection \<open>What one iteration does to the tracker\<close>

lemma track_phase_cases:
  assumes "track_phase opts samp cls [e0, e1] [t0, t1] st = Inr st'"
  shows "(homologsInverted st ! samp = -1 \<and> t0 = t1 \<and> st' = st)
       \<or> (homologsInverted st ! samp = -1 \<and> t0 \<noteq> t1
           \<and> (st' = st\<lparr>homologsInverted := (homologsInverted st)[samp := 0]\<rparr>
              \<or> st' = st\<lparr>homologsInverted := (homologsInverted st)[samp := 1]\<rparr>))
       \<or> ((homologsInverted st ! samp = 0 \<or> homologsInverted st ! samp = 1) \<and> t0 = t1 \<and> st' = st)
       \<or> ((homologsInverted st ! samp = 0 \<or> homologsInverted st ! samp = 1) \<and> t0 \<noteq> t1
           \<and> (st' = count_het_site cls st
              \<or> st' = count_switch opts samp cls (count_het_site cls st)))"
proof (cases "homologsInverted st ! samp = -1")
  case True
  with assms show ?thesis
    by (auto simp: track_phase_def split: if_splits)
next
  case False
  with assms have "arr_read [e0, e1] (homologsInverted st ! samp) \<noteq> Inl OutOfBounds"
    by (auto simp: track_phase_def Let_def split: sum.splits)
  then have h: "homologsInverted st ! samp = 0 \<or> homologsInverted st ! samp = 1"
    by (auto simp: arr_read_def split: if_splits)
  from h assms False show ?thesis
    by (elim disjE) (auto simp: track_phase_def Let_def arr_read_def split: if_splits)
qed

lemma compare_sample_cases:
  assumes "compare_sample opts E T samp st = Inr (fl, st')"
  shows "\<exists>cls st1. local_anc_class opts samp st = Inr (cls, st1) \<and>
      ((fl = MissingTruth \<and> (st' = st1 \<or>
           st' = st1\<lparr>stderr_out := stderr_out st1 @ [OneHapTruthWarning], oneHapTruthWarn := True\<rparr>))
       \<or> (fl = TripleHet (trioParentsInSuccession opts) \<and> st' = st1)
       \<or> (fl = MissingEstimate \<and> st' = st1\<lparr>numMissing := numMissing st1 + 1\<rparr>)
       \<or> (fl = Compared \<and>
           track_phase opts samp cls [E ! (samp * 2), E ! (samp * 2 + 1)]
              [T ! (samp * 2), T ! (samp * 2 + 1)] st1 = Inr st'))"
proof -
  from assms obtain cls st1 where l: "local_anc_class opts samp st = Inr (cls, st1)"
    by (auto simp: compare_sample_def split: sum.splits)
  from assms l show ?thesis
    by (auto simp: compare_sample_def compare_alleles_def Let_def
             split: if_splits sum.splits bool.splits)
qed

subsection \<open>From one iteration to the loops\<close>

text \<open>
  A reflexive and transitive relation between states that every iteration of the
  per-sample loop respects, and that counting a locus respects, holds between the
  state before and the state after each loop.
\<close>

lemma sample_loop_rel:
  assumes r_refl: "\<And>a. R a a" and r_trans: "\<And>a b c. R a b \<Longrightarrow> R b c \<Longrightarrow> R a c"
    and step: "\<And>samp st fl st'. samp < numSamples opts \<Longrightarrow>
                 compare_sample opts E T samp st = Inr (fl, st') \<Longrightarrow> R st st'"
  shows "sample_loop opts E T samp st = Inr st' \<Longrightarrow> R st st'"
  using step
proof (induction opts E T samp st rule: sample_loop.induct)
  case (1 opts E T samp st)
  note loop = \<open>sample_loop opts E T samp st = Inr st'\<close>
  have stp: "R a b" if "k < numSamples opts" "compare_sample opts E T k a = Inr (fl, b)" for k a fl b
    using that "1.prems" by blast
  show ?case
  proof (cases "samp < numSamples opts")
    case False
    with loop have "st' = st" by (subst (asm) sample_loop.simps) simp
    with r_refl show ?thesis by simp
  next
    case True
    with loop obtain fl st1 where c: "compare_sample opts E T samp st = Inr (fl, st1)"
      and r: "sample_loop opts E T (next_samp fl samp) st1 = Inr st'"
      by (subst (asm) sample_loop.simps) (auto split: sum.splits)
    have "R st1 st'" by (rule "1.IH"[OF True c refl r]) (rule stp)
    with stp[OF True c] show ?thesis by (rule r_trans)
  qed
qed

lemma locus_body_rel:
  assumes r_refl: "\<And>a. R a a" and r_trans: "\<And>a b c. R a b \<Longrightarrow> R b c \<Longrightarrow> R a c"
    and step: "\<And>E T samp st fl st'. samp < numSamples opts \<Longrightarrow>
                 compare_sample opts E T samp st = Inr (fl, st') \<Longrightarrow> R st st'"
    and mark: "\<And>st. R st (st\<lparr>numMarkers := numMarkers st + 1\<rparr>)"
    and body: "locus_body opts st estG trueG = Some (Inr (st', estG', trueG'))"
  shows "R st st'"
proof -
  from body obtain E T where
    l: "sample_loop opts E T 0 (st\<lparr>numMarkers := numMarkers st + 1\<rparr>) = Inr st'"
    by (auto simp: locus_body_def split: sum.splits option.splits)
  have "R (st\<lparr>numMarkers := numMarkers st + 1\<rparr>) st'"
  proof (rule sample_loop_rel[where R = R and opts = opts and E = E and T = T and samp = 0])
    show "R a a" for a by (rule r_refl)
    show "R a c" if "R a b" "R b c" for a b c using that by (rule r_trans)
    show "R s s'" if "samp < numSamples opts" "compare_sample opts E T samp s = Inr (fl, s')"
      for samp s fl s' using that by (rule step)
    show "sample_loop opts E T 0 (st\<lparr>numMarkers := numMarkers st + 1\<rparr>) = Inr st'" by fact
  qed
  with mark show ?thesis by (rule r_trans)
qed

lemma main_loop_rel:
  assumes r_refl: "\<And>a. R a a" and r_trans: "\<And>a b c. R a b \<Longrightarrow> R b c \<Longrightarrow> R a c"
    and step: "\<And>E T samp st fl st'. samp < numSamples opts \<Longrightarrow>
                 compare_sample opts E T samp st = Inr (fl, st') \<Longrightarrow> R st st'"
    and mark: "\<And>st. R st (st\<lparr>numMarkers := numMarkers st + 1\<rparr>)"
  shows "main_loop opts st estG trueG = Some (Inr st') \<Longrightarrow> R st st'"
  using step
proof (induction opts st estG trueG rule: main_loop.induct)
  case (1 opts st estG trueG)
  note loop = \<open>main_loop opts st estG trueG = Some (Inr st')\<close>
  have stp: "R a b" if "k < numSamples opts" "compare_sample opts E T k a = Inr (fl, b)"
    for E T k a fl b
    using that "1.prems" by blast
  show ?case
  proof (cases estG)
    case Nil
    with loop have "st' = st" by (subst (asm) main_loop.simps) (simp add: fgetc_def)
    with r_refl show ?thesis by simp
  next
    case (Cons c cs)
    then have g: "fgetc estG = (Some c, cs)" by (simp add: fgetc_def)
    with loop obtain st1 estG1 trueG1 where
      b: "locus_body opts st (ungetc c cs) trueG = Some (Inr (st1, estG1, trueG1))"
      and r: "main_loop opts st1 estG1 trueG1 = Some (Inr st')"
      by (subst (asm) main_loop.simps) (auto split: option.splits sum.splits)
    have "R st st1"
    proof (rule locus_body_rel[where R = R, OF _ _ _ _ b])
      show "R a a" for a by (rule r_refl)
      show "R a c" if "R a b" "R b c" for a b c using that by (rule r_trans)
      show "R s s'" if "samp < numSamples opts" "compare_sample opts E T samp s = Inr (fl, s')"
        for E T samp s fl s' using that by (rule stp)
      show "R s (s\<lparr>numMarkers := numMarkers s + 1\<rparr>)" for s by (rule mark)
    qed
    moreover have "R st1 st'"
      by (rule "1.IH"[OF g[symmetric] refl b refl refl refl r]) (rule stp)
    ultimately show ?thesis by (rule r_trans)
  qed
qed

subsection \<open>Orientation\<close>

lemma orientation_kept_refl: "orientation_kept a a"
  by (simp add: orientation_kept_def)

lemma orientation_kept_trans:
  "orientation_kept a b \<Longrightarrow> orientation_kept b c \<Longrightarrow> orientation_kept a c"
  unfolding orientation_kept_def by (intro conjI allI impI) (simp, metis, metis)

lemma compare_sample_cases5:
  assumes c: "compare_sample opts E T samp st = Inr (fl, st')"
  obtains (skip) "fl \<noteq> Compared" "homologsInverted st' = homologsInverted st"
      "indivNumSwitches st' = indivNumSwitches st" "numSwitchErrors st' = numSwitchErrors st"
      "totalHetSites st' = totalHetSites st"
    | (same) st1 where "tracker_unchanged st st1"
        "fl = Compared" "T ! (samp * 2) = T ! (samp * 2 + 1)" "st' = st1"
    | (first) st1 where "tracker_unchanged st st1"
        "fl = Compared" "T ! (samp * 2) \<noteq> T ! (samp * 2 + 1)"
        "homologsInverted st ! samp = -1"
        "st' = st1\<lparr>homologsInverted := (homologsInverted st1)[samp := 0]\<rparr>
         \<or> st' = st1\<lparr>homologsInverted := (homologsInverted st1)[samp := 1]\<rparr>"
    | (het) cls st1 where "tracker_unchanged st st1"
        "fl = Compared" "T ! (samp * 2) \<noteq> T ! (samp * 2 + 1)"
        "homologsInverted st ! samp = 0 \<or> homologsInverted st ! samp = 1"
        "st' = count_het_site cls st1"
    | (switch) cls st1 where "tracker_unchanged st st1"
        "fl = Compared" "T ! (samp * 2) \<noteq> T ! (samp * 2 + 1)"
        "homologsInverted st ! samp = 0 \<or> homologsInverted st ! samp = 1"
        "st' = count_switch opts samp cls (count_het_site cls st1)"
proof -
  from compare_sample_cases[OF c] obtain cls st1 where
    l: "local_anc_class opts samp st = Inr (cls, st1)" and
    k: "(fl = MissingTruth \<and> (st' = st1 \<or>
           st' = st1\<lparr>stderr_out := stderr_out st1 @ [OneHapTruthWarning], oneHapTruthWarn := True\<rparr>))
       \<or> (fl = TripleHet (trioParentsInSuccession opts) \<and> st' = st1)
       \<or> (fl = MissingEstimate \<and> st' = st1\<lparr>numMissing := numMissing st1 + 1\<rparr>)
       \<or> (fl = Compared \<and>
           track_phase opts samp cls [E ! (samp * 2), E ! (samp * 2 + 1)]
              [T ! (samp * 2), T ! (samp * 2 + 1)] st1 = Inr st')"
    by blast
  note tu = local_anc_class_unchanged[OF l]
  then have u:
    "homologsInverted st1 = homologsInverted st" "indivNumSwitches st1 = indivNumSwitches st"
    "numSwitchErrors st1 = numSwitchErrors st" "totalHetSites st1 = totalHetSites st"
    by (simp_all add: tracker_unchanged_def)
  show thesis
  proof (cases "fl = Compared")
    case True
    with k have "track_phase opts samp cls [E ! (samp * 2), E ! (samp * 2 + 1)]
              [T ! (samp * 2), T ! (samp * 2 + 1)] st1 = Inr st'" by simp
    from track_phase_cases[OF this] show ?thesis
    proof (elim disjE conjE)
      assume "T ! (samp * 2) = T ! (samp * 2 + 1)" "st' = st1"
      with tu True show ?thesis by (rule same)
    next
      assume "homologsInverted st1 ! samp = -1" "T ! (samp * 2) \<noteq> T ! (samp * 2 + 1)"
        "st' = st1\<lparr>homologsInverted := (homologsInverted st1)[samp := 0]\<rparr>"
      with tu True show ?thesis by (intro first[of st1]) (simp_all add: u)
    next
      assume "homologsInverted st1 ! samp = -1" "T ! (samp * 2) \<noteq> T ! (samp * 2 + 1)"
        "st' = st1\<lparr>homologsInverted := (homologsInverted st1)[samp := 1]\<rparr>"
      with tu True show ?thesis by (intro first[of st1]) (simp_all add: u)
    next
      assume "T ! (samp * 2) = T ! (samp * 2 + 1)" "st' = st1"
      with tu True show ?thesis by (rule same)
    next
      assume "T ! (samp * 2) = T ! (samp * 2 + 1)" "st' = st1"
      with tu True show ?thesis by (rule same)
    next
      assume "homologsInverted st1 ! samp = 0" "T ! (samp * 2) \<noteq> T ! (samp * 2 + 1)"
        "st' = count_het_site cls st1"
      with tu True show ?thesis by (intro het[of st1 cls]) (simp_all add: u)
    next
      assume "homologsInverted st1 ! samp = 0" "T ! (samp * 2) \<noteq> T ! (samp * 2 + 1)"
        "st' = count_switch opts samp cls (count_het_site cls st1)"
      with tu True show ?thesis by (intro switch[of st1 cls]) (simp_all add: u)
    next
      assume "homologsInverted st1 ! samp = 1" "T ! (samp * 2) \<noteq> T ! (samp * 2 + 1)"
        "st' = count_het_site cls st1"
      with tu True show ?thesis by (intro het[of st1 cls]) (simp_all add: u)
    next
      assume "homologsInverted st1 ! samp = 1" "T ! (samp * 2) \<noteq> T ! (samp * 2 + 1)"
        "st' = count_switch opts samp cls (count_het_site cls st1)"
      with tu True show ?thesis by (intro switch[of st1 cls]) (simp_all add: u)
    qed
  next
    case False
    with k have "st' = st1 \<or>
           st' = st1\<lparr>stderr_out := stderr_out st1 @ [OneHapTruthWarning], oneHapTruthWarn := True\<rparr>
           \<or> st' = st1\<lparr>numMissing := numMissing st1 + 1\<rparr>" by blast
    then have "homologsInverted st' = homologsInverted st"
      "indivNumSwitches st' = indivNumSwitches st" "numSwitchErrors st' = numSwitchErrors st"
      "totalHetSites st' = totalHetSites st"
      using u by auto
    with False skip show ?thesis by blast
  qed
qed

lemmas step_defs = count_switch_def count_het_site_def incr_def Let_def tracker_unchanged_def

lemma compare_sample_frame:
  assumes c: "compare_sample opts E T samp st = Inr (fl, st')"
  shows "length (homologsInverted st') = length (homologsInverted st)"
    and "length (indivNumSwitches st') = length (indivNumSwitches st)"
    and "\<forall>s. s \<noteq> samp \<longrightarrow> homologsInverted st' ! s = homologsInverted st ! s"
    and "\<forall>s. s \<noteq> samp \<longrightarrow> indivNumSwitches st' ! s = indivNumSwitches st ! s"
proof -
  show "length (homologsInverted st') = length (homologsInverted st)"
    by (rule compare_sample_cases5[OF c]) (auto simp: step_defs)
  show "length (indivNumSwitches st') = length (indivNumSwitches st)"
    by (rule compare_sample_cases5[OF c]) (auto simp: step_defs)
  show "\<forall>s. s \<noteq> samp \<longrightarrow> homologsInverted st' ! s = homologsInverted st ! s"
    by (rule compare_sample_cases5[OF c]) (auto simp: step_defs)
  show "\<forall>s. s \<noteq> samp \<longrightarrow> indivNumSwitches st' ! s = indivNumSwitches st ! s"
    by (rule compare_sample_cases5[OF c]) (auto simp: step_defs)
qed

lemma compare_sample_unset:
  assumes c: "compare_sample opts E T samp st = Inr (fl, st')"
    and samp: "samp < length (homologsInverted st)"
    and unset: "homologsInverted st ! samp = -1"
  shows "(homologsInverted st' ! samp \<noteq> -1) =
             (fl = Compared \<and> T ! (samp * 2) \<noteq> T ! (samp * 2 + 1))
           \<and> (homologsInverted st' ! samp = -1 \<or> homologsInverted st' ! samp = 0
               \<or> homologsInverted st' ! samp = 1)
           \<and> totalHetSites st' = totalHetSites st
           \<and> numSwitchErrors st' = numSwitchErrors st
           \<and> indivNumSwitches st' = indivNumSwitches st"
  by (rule compare_sample_cases5[OF c]) (use samp unset in \<open>auto simp: step_defs\<close>)

lemma compare_sample_set:
  assumes c: "compare_sample opts E T samp st = Inr (fl, st')"
    and samp: "samp < length (homologsInverted st)"
    and len: "length (indivNumSwitches st) = length (homologsInverted st)"
    and set: "homologsInverted st ! samp = 0 \<or> homologsInverted st ! samp = 1"
  shows "(homologsInverted st' ! samp = 0 \<or> homologsInverted st' ! samp = 1)
           \<and> (homologsInverted st' ! samp = homologsInverted st ! samp
               \<or> homologsInverted st' ! samp = 1 - homologsInverted st ! samp)
           \<and> (homologsInverted st' ! samp \<noteq> homologsInverted st ! samp) =
               (indivNumSwitches st' ! samp = indivNumSwitches st ! samp + 1)
           \<and> (homologsInverted st' ! samp = homologsInverted st ! samp) =
               (indivNumSwitches st' = indivNumSwitches st)
           \<and> numSwitchErrors st' - numSwitchErrors st =
               indivNumSwitches st' ! samp - indivNumSwitches st ! samp"
proof (rule compare_sample_cases5[OF c])
  assume "fl \<noteq> Compared" "homologsInverted st' = homologsInverted st"
    "indivNumSwitches st' = indivNumSwitches st" "numSwitchErrors st' = numSwitchErrors st"
    "totalHetSites st' = totalHetSites st"
  with set show ?thesis by simp
next
  fix st1 assume "tracker_unchanged st st1" "st' = st1"
  with set show ?thesis by (simp add: step_defs)
next
  assume "homologsInverted st ! samp = -1"
  with set show ?thesis by simp
next
  fix st1 cls assume "tracker_unchanged st st1" "st' = count_het_site cls st1"
  with set show ?thesis by (simp add: step_defs)
next
  fix st1 cls
  assume a: "tracker_unchanged st st1" "st' = count_switch opts samp cls (count_het_site cls st1)"
  from a samp have h: "homologsInverted st' ! samp = 1 - homologsInverted st ! samp"
    by (simp add: step_defs)
  from a samp len have i: "indivNumSwitches st' ! samp = indivNumSwitches st ! samp + 1"
    by (simp add: step_defs)
  from a have n: "numSwitchErrors st' = numSwitchErrors st + 1" by (simp add: step_defs)
  from i have ne: "indivNumSwitches st' \<noteq> indivNumSwitches st" by auto
  from h have hne: "homologsInverted st' ! samp \<noteq> homologsInverted st ! samp"
    by presburger
  from set h hne i n ne show ?thesis by (elim disjE) simp_all
qed

lemma orientation_inv_step:
  assumes c: "compare_sample opts E T samp st = Inr (fl, st')"
  shows "orientation_inv st st'"
  unfolding orientation_inv_def
proof (intro impI conjI)
  assume len: "length (indivNumSwitches st) = length (homologsInverted st)"
  note l = compare_sample_frame[OF c]
  from len l(1,2)
  show "length (indivNumSwitches st') = length (homologsInverted st')" by simp
  show "orientation_kept st st'"
    unfolding orientation_kept_def
  proof (intro conjI allI impI)
    show "length (homologsInverted st') = length (homologsInverted st)" by (rule l(1))
  next
    fix s assume s: "s < length (homologsInverted st)"
      and h: "homologsInverted st ! s = 0 \<or> homologsInverted st ! s = 1"
    show "homologsInverted st' ! s = 0 \<or> homologsInverted st' ! s = 1"
    proof (cases "s = samp")
      case True
      with compare_sample_set[OF c _ len] s h show ?thesis by blast
    next
      case False
      with l(3) h show ?thesis by simp
    qed
  next
    fix s assume s: "s < length (homologsInverted st)"
      and h: "homologsInverted st ! s = -1"
    show "homologsInverted st' ! s = -1 \<or> homologsInverted st' ! s = 0
               \<or> homologsInverted st' ! s = 1"
    proof (cases "s = samp")
      case True
      with compare_sample_unset[OF c] s h show ?thesis by blast
    next
      case False
      with l(3) h show ?thesis by simp
    qed
  qed
qed

lemma orientation_inv_refl: "orientation_inv a a"
  by (simp add: orientation_inv_def orientation_kept_refl)

lemma orientation_inv_trans: "orientation_inv a b \<Longrightarrow> orientation_inv b c \<Longrightarrow> orientation_inv a c"
  unfolding orientation_inv_def using orientation_kept_trans by blast

lemma orientation_inv_mark: "orientation_inv st (st\<lparr>numMarkers := numMarkers st + 1\<rparr>)"
  by (simp add: orientation_inv_def orientation_kept_def)

text \<open>
  C4. One iteration of the per-sample loop for \<open>samp\<close> changes no other sample's
  orientation. If the orientation of \<open>samp\<close> is unset (-1), it is set afterwards exactly
  when the iteration reached the phase tracker (true alleles not missing, site not
  skipped as triple het, estimate not missing) at a site whose true alleles differ; it
  is then 0 or 1, and that iteration leaves \<^verbatim>\<open>totalHetSites\<close>,
  \<^verbatim>\<open>numSwitchErrors\<close> and the personal switch counts as they were. If the orientation
  is set (0 or 1), it is 0 or 1 afterwards, it either stays or becomes \<open>1 - h\<close>, and it
  changes exactly when the personal switch count of \<open>samp\<close> goes up by one, together
  with \<^verbatim>\<open>numSwitchErrors\<close>. Over the sample loop, a whole locus and the whole run a set
  orientation stays set, and a run from the initial state ends with every orientation
  in -1, 0, 1.
\<close>

theorem C4_orientation:
  "(compare_sample opts E T samp st = Inr (fl, st') \<and> samp < length (homologsInverted st)
      \<and> length (indivNumSwitches st) = length (homologsInverted st) \<longrightarrow>
      length (homologsInverted st') = length (homologsInverted st)
      \<and> (\<forall>s. s \<noteq> samp \<longrightarrow> homologsInverted st' ! s = homologsInverted st ! s)
      \<and> (homologsInverted st ! samp = -1 \<longrightarrow>
           (homologsInverted st' ! samp \<noteq> -1) =
             (fl = Compared \<and> T ! (samp * 2) \<noteq> T ! (samp * 2 + 1))
           \<and> (homologsInverted st' ! samp = -1 \<or> homologsInverted st' ! samp = 0
               \<or> homologsInverted st' ! samp = 1)
           \<and> totalHetSites st' = totalHetSites st
           \<and> numSwitchErrors st' = numSwitchErrors st
           \<and> indivNumSwitches st' = indivNumSwitches st)
      \<and> (homologsInverted st ! samp = 0 \<or> homologsInverted st ! samp = 1 \<longrightarrow>
           (homologsInverted st' ! samp = 0 \<or> homologsInverted st' ! samp = 1)
           \<and> (homologsInverted st' ! samp = homologsInverted st ! samp
               \<or> homologsInverted st' ! samp = 1 - homologsInverted st ! samp)
           \<and> (homologsInverted st' ! samp \<noteq> homologsInverted st ! samp) =
               (indivNumSwitches st' ! samp = indivNumSwitches st ! samp + 1)
           \<and> (homologsInverted st' ! samp = homologsInverted st ! samp) =
               (indivNumSwitches st' = indivNumSwitches st)
           \<and> numSwitchErrors st' - numSwitchErrors st =
               indivNumSwitches st' ! samp - indivNumSwitches st ! samp))
   \<and> (length (indivNumSwitches sta) = length (homologsInverted sta) \<longrightarrow>
        (sample_loop opts E T k sta = Inr stb \<longrightarrow> orientation_kept sta stb)
        \<and> (locus_body opts sta estG trueG = Some (Inr (stb, estG', trueG')) \<longrightarrow>
              orientation_kept sta stb)
        \<and> (main_loop opts sta estG trueG = Some (Inr stb) \<longrightarrow> orientation_kept sta stb))
   \<and> (main opts files estG trueG = Some (Inr (rep, stf)) \<longrightarrow>
        (\<forall>s. s < numSamples opts \<longrightarrow>
           homologsInverted stf ! s = -1 \<or> homologsInverted stf ! s = 0
           \<or> homologsInverted stf ! s = 1))"
  (is "(?A \<longrightarrow> ?B) \<and> (?C \<longrightarrow> ?D) \<and> (?E \<longrightarrow> ?F)")
proof -
  have 1: "?A \<longrightarrow> ?B"
  proof
    assume ?A
    then have c: "compare_sample opts E T samp st = Inr (fl, st')"
      and s: "samp < length (homologsInverted st)"
      and l: "length (indivNumSwitches st) = length (homologsInverted st)" by simp_all
    show ?B
      by (rule conjI[OF compare_sample_frame(1)[OF c] conjI[OF compare_sample_frame(3)[OF c]
            conjI[OF impI[OF compare_sample_unset[OF c s]] impI[OF compare_sample_set[OF c s l]]]]])
  qed
  have 2: "?C \<longrightarrow> ?D"
  proof
    assume len: ?C
    have a: "sample_loop opts E T k sta = Inr stb \<longrightarrow> orientation_kept sta stb"
    proof
      assume "sample_loop opts E T k sta = Inr stb"
      then have "orientation_inv sta stb"
      proof (rule sample_loop_rel[where R = orientation_inv, rotated 3])
        show "orientation_inv a a" for a by (rule orientation_inv_refl)
        show "orientation_inv a c" if "orientation_inv a b" "orientation_inv b c" for a b c
          using that by (rule orientation_inv_trans)
        show "orientation_inv s s'" if "compare_sample opts E T samp s = Inr (fl, s')"
          for samp s fl s' using that by (rule orientation_inv_step)
      qed
      with len show "orientation_kept sta stb" by (simp add: orientation_inv_def)
    qed
    have b: "locus_body opts sta estG trueG = Some (Inr (stb, estG', trueG')) \<longrightarrow>
              orientation_kept sta stb"
    proof
      assume "locus_body opts sta estG trueG = Some (Inr (stb, estG', trueG'))"
      then have "orientation_inv sta stb"
      proof (rule locus_body_rel[where R = orientation_inv, rotated 4])
        show "orientation_inv a a" for a by (rule orientation_inv_refl)
        show "orientation_inv a c" if "orientation_inv a b" "orientation_inv b c" for a b c
          using that by (rule orientation_inv_trans)
        show "orientation_inv s s'" if "compare_sample opts E T samp s = Inr (fl, s')"
          for E T samp s fl s' using that by (rule orientation_inv_step)
        show "orientation_inv s (s\<lparr>numMarkers := numMarkers s + 1\<rparr>)" for s
          by (rule orientation_inv_mark)
      qed
      with len show "orientation_kept sta stb" by (simp add: orientation_inv_def)
    qed
    have c: "main_loop opts sta estG trueG = Some (Inr stb) \<longrightarrow> orientation_kept sta stb"
    proof
      assume "main_loop opts sta estG trueG = Some (Inr stb)"
      then have "orientation_inv sta stb"
      proof (rule main_loop_rel[where R = orientation_inv, rotated 4])
        show "orientation_inv a a" for a by (rule orientation_inv_refl)
        show "orientation_inv a c" if "orientation_inv a b" "orientation_inv b c" for a b c
          using that by (rule orientation_inv_trans)
        show "orientation_inv s s'" if "compare_sample opts E T samp s = Inr (fl, s')"
          for E T samp s fl s' using that by (rule orientation_inv_step)
        show "orientation_inv s (s\<lparr>numMarkers := numMarkers s + 1\<rparr>)" for s
          by (rule orientation_inv_mark)
      qed
      with len show "orientation_kept sta stb" by (simp add: orientation_inv_def)
    qed
    from a b c show ?D by (rule conjI[OF _ conjI])
  qed
  have 3: "?E \<longrightarrow> ?F"
  proof
    assume m: ?E
    from m obtain st1 where ml: "main_loop opts (init_state opts files) estG trueG = Some (Inr st1)"
      and hf: "homologsInverted stf = homologsInverted st1"
      by (auto simp: main_def split: option.splits sum.splits)
    from ml have "orientation_inv (init_state opts files) st1"
    proof (rule main_loop_rel[where R = orientation_inv, rotated 4])
      show "orientation_inv a a" for a by (rule orientation_inv_refl)
      show "orientation_inv a c" if "orientation_inv a b" "orientation_inv b c" for a b c
        using that by (rule orientation_inv_trans)
      show "orientation_inv s s'" if "compare_sample opts E T samp s = Inr (fl, s')"
        for E T samp s fl s' using that by (rule orientation_inv_step)
      show "orientation_inv s (s\<lparr>numMarkers := numMarkers s + 1\<rparr>)" for s
        by (rule orientation_inv_mark)
    qed
    then have "orientation_kept (init_state opts files) st1"
      by (simp add: orientation_inv_def init_state_def)
    then show ?F
      by (simp add: orientation_kept_def init_state_def hf)
  qed
  from 1 2 3 show ?thesis by (rule conjI[OF _ conjI])
qed

theorem C4_orientation_witness:
  "compare_sample optsA ''01'' ''01'' 0 (stateA 1 (-1) 0 0 0) = Inr (Compared, stateA 1 0 0 0 0)
   \<and> compare_sample optsA ''10'' ''01'' 0 (stateA 2 0 0 0 0) = Inr (Compared, stateA 2 1 1 1 1)
   \<and> homologsInverted (stateA 2 1 1 1 1) ! 0 = 1 - homologsInverted (stateA 2 0 0 0 0) ! 0
   \<and> indivNumSwitches (stateA 2 1 1 1 1) ! 0 = indivNumSwitches (stateA 2 0 0 0 0) ! 0 + 1
   \<and> main_loop optsA (init_state optsA [])
         ''01\<newline>10\<newline>01\<newline>'' ''01\<newline>01\<newline>10\<newline>'' =
       Some (Inr (stateA 3 1 1 1 2))
   \<and> orientation_kept (init_state optsA []) (stateA 3 1 1 1 2)"
proof -
  have c1: "compare_sample optsA ''01'' ''01'' 0 (stateA 1 (-1) 0 0 0) =
              Inr (Compared, stateA 1 0 0 0 0)"
    by code_simp
  have c2: "compare_sample optsA ''10'' ''01'' 0 (stateA 2 0 0 0 0) =
              Inr (Compared, stateA 2 1 1 1 1)"
    by code_simp
  have ml: "main_loop optsA (init_state optsA [])
         ''01\<newline>10\<newline>01\<newline>'' ''01\<newline>01\<newline>10\<newline>'' =
       Some (Inr (stateA 3 1 1 1 2))"
    by code_simp
  have l: "length (indivNumSwitches (init_state optsA [])) =
           length (homologsInverted (init_state optsA []))"
    by (simp add: init_state_def)
  from C4_orientation[where opts = optsA and E = "''10''" and T = "''01''" and samp = 0
      and st = "stateA 2 0 0 0 0" and fl = Compared and st' = "stateA 2 1 1 1 1"
      and sta = "init_state optsA []" and stb = "stateA 3 1 1 1 2"
      and estG = "''01\<newline>10\<newline>01\<newline>''"
      and trueG = "''01\<newline>01\<newline>10\<newline>''"] c2 ml l
  have "homologsInverted (stateA 2 1 1 1 1) ! 0 = 1 - homologsInverted (stateA 2 0 0 0 0) ! 0
      \<and> indivNumSwitches (stateA 2 1 1 1 1) ! 0 = indivNumSwitches (stateA 2 0 0 0 0) ! 0 + 1
      \<and> orientation_kept (init_state optsA []) (stateA 3 1 1 1 2)"
    by (simp add: stateA_def)
  with c1 c2 ml show ?thesis by simp
qed

subsection \<open>Switch errors and heterozygous sites\<close>

lemma switches_bounded_refl: "switches_bounded a a"
  by (simp add: switches_bounded_def)

lemma switches_bounded_trans:
  assumes "switches_bounded a b" "switches_bounded b c"
  shows "switches_bounded a c"
proof -
  from assms have len: "length (indivNumSwitches b) = length (indivNumSwitches a)"
    "length (indivNumSwitches c) = length (indivNumSwitches b)"
    by (simp_all add: switches_bounded_def)
  from assms have n: "numSwitchErrors a \<le> numSwitchErrors b" "numSwitchErrors b \<le> numSwitchErrors c"
    and h: "totalHetSites a \<le> totalHetSites b" "totalHetSites b \<le> totalHetSites c"
    and nh: "numSwitchErrors b - numSwitchErrors a \<le> totalHetSites b - totalHetSites a"
      "numSwitchErrors c - numSwitchErrors b \<le> totalHetSites c - totalHetSites b"
    and sm: "sum_list (indivNumSwitches a) \<le> sum_list (indivNumSwitches b)"
      "sum_list (indivNumSwitches b) \<le> sum_list (indivNumSwitches c)"
    and sn: "sum_list (indivNumSwitches b) - sum_list (indivNumSwitches a) =
          numSwitchErrors b - numSwitchErrors a"
      "sum_list (indivNumSwitches c) - sum_list (indivNumSwitches b) =
          numSwitchErrors c - numSwitchErrors b"
    by (simp_all add: switches_bounded_def)
  have per: "indivNumSwitches a ! s \<le> indivNumSwitches c ! s
      \<and> indivNumSwitches c ! s - indivNumSwitches a ! s \<le> totalHetSites c - totalHetSites a"
    if s: "s < length (indivNumSwitches a)" for s
  proof -
    from s assms len have "indivNumSwitches a ! s \<le> indivNumSwitches b ! s"
      "indivNumSwitches b ! s \<le> indivNumSwitches c ! s"
      "indivNumSwitches b ! s - indivNumSwitches a ! s \<le> totalHetSites b - totalHetSites a"
      "indivNumSwitches c ! s - indivNumSwitches b ! s \<le> totalHetSites c - totalHetSites b"
      by (simp_all add: switches_bounded_def)
    with h show ?thesis by linarith
  qed
  have "numSwitchErrors a \<le> numSwitchErrors c" "totalHetSites a \<le> totalHetSites c"
    "numSwitchErrors c - numSwitchErrors a \<le> totalHetSites c - totalHetSites a"
    "sum_list (indivNumSwitches a) \<le> sum_list (indivNumSwitches c)"
    "sum_list (indivNumSwitches c) - sum_list (indivNumSwitches a) =
          numSwitchErrors c - numSwitchErrors a"
    using n h nh sm sn by linarith+
  with len per show ?thesis by (simp add: switches_bounded_def)
qed

lemma sum_list_incr: "i < length xs \<Longrightarrow> sum_list (incr xs i) = sum_list xs + 1"
  by (simp add: incr_def sum_list_update)

lemma compare_sample_counts:
  assumes c: "compare_sample opts E T samp st = Inr (fl, st')"
    and samp: "samp < length (indivNumSwitches st)"
  shows "(indivNumSwitches st' ! samp = indivNumSwitches st ! samp
          \<or> indivNumSwitches st' ! samp = indivNumSwitches st ! samp + 1)
       \<and> (\<forall>s. s \<noteq> samp \<longrightarrow> indivNumSwitches st' ! s = indivNumSwitches st ! s)
       \<and> numSwitchErrors st' = numSwitchErrors st
            + (indivNumSwitches st' ! samp - indivNumSwitches st ! samp)
       \<and> sum_list (indivNumSwitches st') = sum_list (indivNumSwitches st)
            + (indivNumSwitches st' ! samp - indivNumSwitches st ! samp)
       \<and> (totalHetSites st' = totalHetSites st \<or> totalHetSites st' = totalHetSites st + 1)
       \<and> (indivNumSwitches st' ! samp = indivNumSwitches st ! samp + 1 \<longrightarrow>
            totalHetSites st' = totalHetSites st + 1)
       \<and> (totalHetSites st' = totalHetSites st + 1 \<longrightarrow>
            fl = Compared \<and> T ! (samp * 2) \<noteq> T ! (samp * 2 + 1)
            \<and> (homologsInverted st ! samp = 0 \<or> homologsInverted st ! samp = 1))"
proof (rule compare_sample_cases5[OF c])
  assume "fl \<noteq> Compared" "homologsInverted st' = homologsInverted st"
    "indivNumSwitches st' = indivNumSwitches st" "numSwitchErrors st' = numSwitchErrors st"
    "totalHetSites st' = totalHetSites st"
  then show ?thesis by simp
next
  fix st1 assume "tracker_unchanged st st1" "st' = st1"
  then show ?thesis by (simp add: step_defs)
next
  fix st1 assume "tracker_unchanged st st1"
    "st' = st1\<lparr>homologsInverted := (homologsInverted st1)[samp := 0]\<rparr>
     \<or> st' = st1\<lparr>homologsInverted := (homologsInverted st1)[samp := 1]\<rparr>"
  then show ?thesis by (auto simp: step_defs)
next
  fix st1 cls assume "tracker_unchanged st st1" "st' = count_het_site cls st1"
    "fl = Compared" "T ! (samp * 2) \<noteq> T ! (samp * 2 + 1)"
    "homologsInverted st ! samp = 0 \<or> homologsInverted st ! samp = 1"
  then show ?thesis by (simp add: step_defs)
next
  fix st1 cls
  assume a: "tracker_unchanged st st1" "st' = count_switch opts samp cls (count_het_site cls st1)"
    and b: "fl = Compared" "T ! (samp * 2) \<noteq> T ! (samp * 2 + 1)"
    "homologsInverted st ! samp = 0 \<or> homologsInverted st ! samp = 1"
  from a have i: "indivNumSwitches st' = incr (indivNumSwitches st) samp"
    and n: "numSwitchErrors st' = numSwitchErrors st + 1"
    and h: "totalHetSites st' = totalHetSites st + 1"
    by (simp_all add: count_switch_def count_het_site_def Let_def tracker_unchanged_def)
  from i samp have i1: "indivNumSwitches st' ! samp = indivNumSwitches st ! samp + 1"
    and i2: "\<forall>s. s \<noteq> samp \<longrightarrow> indivNumSwitches st' ! s = indivNumSwitches st ! s"
    by (simp_all add: incr_def)
  from i samp have sm: "sum_list (indivNumSwitches st') = sum_list (indivNumSwitches st) + 1"
    by (simp add: sum_list_incr)
  from i1 i2 n h sm b show ?thesis by simp
qed

lemma switches_inv_step:
  assumes c: "compare_sample opts E T samp st = Inr (fl, st')" and s: "samp < numSamples opts"
  shows "switches_inv opts st st'"
  unfolding switches_inv_def
proof
  assume len: "length (indivNumSwitches st) = numSamples opts"
  with s have s': "samp < length (indivNumSwitches st)" by simp
  note k = compare_sample_counts[OF c s'] and f = compare_sample_frame(2)[OF c]
  show "switches_bounded st st'"
    unfolding switches_bounded_def
  proof (intro conjI allI impI)
    fix t assume "t < length (indivNumSwitches st)"
    show "indivNumSwitches st ! t \<le> indivNumSwitches st' ! t"
      using k by (cases "t = samp") auto
    show "indivNumSwitches st' ! t - indivNumSwitches st ! t \<le> totalHetSites st' - totalHetSites st"
      using k by (cases "t = samp") auto
  qed (use k f in auto)
qed

lemma switches_inv_refl: "switches_inv opts a a"
  by (simp add: switches_inv_def switches_bounded_refl)

lemma switches_inv_trans:
  "switches_inv opts a b \<Longrightarrow> switches_inv opts b c \<Longrightarrow> switches_inv opts a c"
  unfolding switches_inv_def
  by (metis switches_bounded_trans switches_bounded_def)

lemma switches_inv_mark: "switches_inv opts st (st\<lparr>numMarkers := numMarkers st + 1\<rparr>)"
  by (simp add: switches_inv_def switches_bounded_def)

text \<open>
  C7. In one iteration for \<open>samp\<close> the personal switch count of \<open>samp\<close> goes up by at
  most one and no other sample's count changes; \<^verbatim>\<open>numSwitchErrors\<close> goes up by the
  same amount; \<^verbatim>\<open>totalHetSites\<close> goes up by at most one, and it does so only in an
  iteration that reaches the phase tracker with differing true alleles and a set
  orientation; a switch is counted only together with such a heterozygous site. So the
  heterozygous sites counted by the iterations of one sample bound its switch count.
  Over the sample loop, a whole locus and the whole run, the growth of every personal
  switch count and of \<^verbatim>\<open>numSwitchErrors\<close> is at most the growth of
  \<^verbatim>\<open>totalHetSites\<close>; a run from the initial state ends with
  \<^verbatim>\<open>numSwitchErrors\<close> at most \<^verbatim>\<open>totalHetSites\<close>, equal to the sum of the personal
  counts, each of which is at most \<^verbatim>\<open>totalHetSites\<close>, and these two counters are the
  ones printed.
\<close>

theorem C7_switches_bounded:
  "(compare_sample opts E T samp st = Inr (fl, st') \<and> samp < length (indivNumSwitches st) \<longrightarrow>
       (indivNumSwitches st' ! samp = indivNumSwitches st ! samp
          \<or> indivNumSwitches st' ! samp = indivNumSwitches st ! samp + 1)
       \<and> (\<forall>s. s \<noteq> samp \<longrightarrow> indivNumSwitches st' ! s = indivNumSwitches st ! s)
       \<and> numSwitchErrors st' = numSwitchErrors st
            + (indivNumSwitches st' ! samp - indivNumSwitches st ! samp)
       \<and> sum_list (indivNumSwitches st') = sum_list (indivNumSwitches st)
            + (indivNumSwitches st' ! samp - indivNumSwitches st ! samp)
       \<and> (totalHetSites st' = totalHetSites st \<or> totalHetSites st' = totalHetSites st + 1)
       \<and> (indivNumSwitches st' ! samp = indivNumSwitches st ! samp + 1 \<longrightarrow>
            totalHetSites st' = totalHetSites st + 1)
       \<and> (totalHetSites st' = totalHetSites st + 1 \<longrightarrow>
            fl = Compared \<and> T ! (samp * 2) \<noteq> T ! (samp * 2 + 1)
            \<and> (homologsInverted st ! samp = 0 \<or> homologsInverted st ! samp = 1)))
   \<and> (length (indivNumSwitches sta) = numSamples opts \<longrightarrow>
        (sample_loop opts E T k sta = Inr stb \<longrightarrow> switches_bounded sta stb)
        \<and> (locus_body opts sta estG trueG = Some (Inr (stb, estG', trueG')) \<longrightarrow>
              switches_bounded sta stb)
        \<and> (main_loop opts sta estG trueG = Some (Inr stb) \<longrightarrow> switches_bounded sta stb))
   \<and> (main opts files estG trueG = Some (Inr (rep, stf)) \<longrightarrow>
        numSwitchErrors stf \<le> totalHetSites stf
        \<and> sum_list (indivNumSwitches stf) = numSwitchErrors stf
        \<and> (\<forall>s. s < numSamples opts \<longrightarrow> indivNumSwitches stf ! s \<le> totalHetSites stf)
        \<and> switch_line rep = rate_line_of (numSwitchErrors stf) (totalHetSites stf))"
  (is "(?A \<longrightarrow> ?B) \<and> (?C \<longrightarrow> ?D) \<and> (?E \<longrightarrow> ?F)")
proof -
  have 1: "?A \<longrightarrow> ?B"
  proof
    assume ?A
    then show ?B using compare_sample_counts[of opts E T samp st fl st'] by blast
  qed
  have 2: "?C \<longrightarrow> ?D"
  proof
    assume len: ?C
    have a: "sample_loop opts E T k sta = Inr stb \<longrightarrow> switches_bounded sta stb"
    proof
      assume "sample_loop opts E T k sta = Inr stb"
      then have "switches_inv opts sta stb"
      proof (rule sample_loop_rel[where R = "switches_inv opts", rotated 3])
        show "switches_inv opts a a" for a by (rule switches_inv_refl)
        show "switches_inv opts a c" if "switches_inv opts a b" "switches_inv opts b c" for a b c
          using that by (rule switches_inv_trans)
        show "switches_inv opts s s'"
          if "samp < numSamples opts" "compare_sample opts E T samp s = Inr (fl, s')"
          for samp s fl s' using that(2,1) by (rule switches_inv_step)
      qed
      with len show "switches_bounded sta stb" by (simp add: switches_inv_def)
    qed
    have b: "locus_body opts sta estG trueG = Some (Inr (stb, estG', trueG')) \<longrightarrow>
              switches_bounded sta stb"
    proof
      assume "locus_body opts sta estG trueG = Some (Inr (stb, estG', trueG'))"
      then have "switches_inv opts sta stb"
      proof (rule locus_body_rel[where R = "switches_inv opts", rotated 4])
        show "switches_inv opts a a" for a by (rule switches_inv_refl)
        show "switches_inv opts a c" if "switches_inv opts a b" "switches_inv opts b c" for a b c
          using that by (rule switches_inv_trans)
        show "switches_inv opts s s'"
          if "samp < numSamples opts" "compare_sample opts E T samp s = Inr (fl, s')"
          for E T samp s fl s' using that(2,1) by (rule switches_inv_step)
        show "switches_inv opts s (s\<lparr>numMarkers := numMarkers s + 1\<rparr>)" for s
          by (rule switches_inv_mark)
      qed
      with len show "switches_bounded sta stb" by (simp add: switches_inv_def)
    qed
    have c: "main_loop opts sta estG trueG = Some (Inr stb) \<longrightarrow> switches_bounded sta stb"
    proof
      assume "main_loop opts sta estG trueG = Some (Inr stb)"
      then have "switches_inv opts sta stb"
      proof (rule main_loop_rel[where R = "switches_inv opts", rotated 4])
        show "switches_inv opts a a" for a by (rule switches_inv_refl)
        show "switches_inv opts a c" if "switches_inv opts a b" "switches_inv opts b c" for a b c
          using that by (rule switches_inv_trans)
        show "switches_inv opts s s'"
          if "samp < numSamples opts" "compare_sample opts E T samp s = Inr (fl, s')"
          for E T samp s fl s' using that(2,1) by (rule switches_inv_step)
        show "switches_inv opts s (s\<lparr>numMarkers := numMarkers s + 1\<rparr>)" for s
          by (rule switches_inv_mark)
      qed
      with len show "switches_bounded sta stb" by (simp add: switches_inv_def)
    qed
    from a b c show ?D by (rule conjI[OF _ conjI])
  qed
  have 3: "?E \<longrightarrow> ?F"
  proof
    assume m: ?E
    from m obtain st1 where ml: "main_loop opts (init_state opts files) estG trueG = Some (Inr st1)"
      and hf: "indivNumSwitches stf = indivNumSwitches st1" "numSwitchErrors stf = numSwitchErrors st1"
        "totalHetSites stf = totalHetSites st1"
      and r: "rep = print_report opts st1"
      by (auto simp: main_def split: option.splits sum.splits)
    from ml have "switches_inv opts (init_state opts files) st1"
    proof (rule main_loop_rel[where R = "switches_inv opts", rotated 4])
      show "switches_inv opts a a" for a by (rule switches_inv_refl)
      show "switches_inv opts a c" if "switches_inv opts a b" "switches_inv opts b c" for a b c
        using that by (rule switches_inv_trans)
      show "switches_inv opts s s'"
        if "samp < numSamples opts" "compare_sample opts E T samp s = Inr (fl, s')"
        for E T samp s fl s' using that(2,1) by (rule switches_inv_step)
      show "switches_inv opts s (s\<lparr>numMarkers := numMarkers s + 1\<rparr>)" for s
        by (rule switches_inv_mark)
    qed
    then have "switches_bounded (init_state opts files) st1"
      by (simp add: switches_inv_def init_state_def)
    then have "numSwitchErrors st1 \<le> totalHetSites st1"
      "sum_list (indivNumSwitches st1) = numSwitchErrors st1"
      "\<forall>s. s < numSamples opts \<longrightarrow> indivNumSwitches st1 ! s \<le> totalHetSites st1"
      by (simp_all add: switches_bounded_def init_state_def sum_list_replicate)
    moreover have "switch_line rep = rate_line_of (numSwitchErrors st1) (totalHetSites st1)"
      by (simp add: r print_report_def Let_def)
    ultimately show ?F by (simp add: hf)
  qed
  from 1 2 3 show ?thesis by (rule conjI[OF _ conjI])
qed

theorem C7_switches_bounded_witness:
  "compare_sample optsA ''10'' ''01'' 0 (stateA 2 0 0 0 0) = Inr (Compared, stateA 2 1 1 1 1)
   \<and> indivNumSwitches (stateA 2 1 1 1 1) ! 0 = indivNumSwitches (stateA 2 0 0 0 0) ! 0 + 1
   \<and> totalHetSites (stateA 2 1 1 1 1) = totalHetSites (stateA 2 0 0 0 0) + 1
   \<and> main optsA [] ''01\<newline>10\<newline>01\<newline>'' ''01\<newline>01\<newline>10\<newline>'' =
       Some (Inr (\<lparr>switch_line = (1, 2, Quotient (1 / 2)), missing_line = None,
                    anc_class_lines = None\<rparr>,
                  stateA 3 1 1 1 2))
   \<and> numSwitchErrors (stateA 3 1 1 1 2) \<le> totalHetSites (stateA 3 1 1 1 2)
   \<and> indivNumSwitches (stateA 3 1 1 1 2) ! 0 \<le> totalHetSites (stateA 3 1 1 1 2)"
proof -
  have c2: "compare_sample optsA ''10'' ''01'' 0 (stateA 2 0 0 0 0) =
              Inr (Compared, stateA 2 1 1 1 1)"
    by code_simp
  have m: "main optsA [] ''01\<newline>10\<newline>01\<newline>'' ''01\<newline>01\<newline>10\<newline>'' =
       Some (Inr (\<lparr>switch_line = (1, 2, Quotient (1 / 2)), missing_line = None,
                    anc_class_lines = None\<rparr>,
                  stateA 3 1 1 1 2))"
    by code_simp
  have s: "(0::nat) < length (indivNumSwitches (stateA 2 0 0 0 0))" "(0::nat) < numSamples optsA"
    by (simp_all add: stateA_def optsA_def)
  have i: "indivNumSwitches (stateA 2 1 1 1 1) ! 0 = indivNumSwitches (stateA 2 0 0 0 0) ! 0 + 1"
    by (simp add: stateA_def)
  from C7_switches_bounded[where opts = optsA and E = "''10''" and T = "''01''" and samp = 0
      and st = "stateA 2 0 0 0 0" and fl = Compared and st' = "stateA 2 1 1 1 1"
      and files = "[]"
      and estG = "''01\<newline>10\<newline>01\<newline>''"
      and trueG = "''01\<newline>01\<newline>10\<newline>''"
      and stf = "stateA 3 1 1 1 2"] c2 m s i
  have "totalHetSites (stateA 2 1 1 1 1) = totalHetSites (stateA 2 0 0 0 0) + 1
      \<and> numSwitchErrors (stateA 3 1 1 1 2) \<le> totalHetSites (stateA 3 1 1 1 2)
      \<and> indivNumSwitches (stateA 3 1 1 1 2) ! 0 \<le> totalHetSites (stateA 3 1 1 1 2)"
    by blast
  with c2 m i show ?thesis by simp
qed

subsection \<open>Reading the ancestry streams\<close>

text \<open>
  C3. The claim is that every sample's ancestry stream loses exactly one record at every
  locus. With \<^verbatim>\<open>-t\<close> and \<^verbatim>\<open>-l\<close>, two samples and the true line \<^verbatim>\<open>0110\<close>
  (both parents heterozygous, transmitted alleles different), the iteration of sample 0
  reads its record and then skips sample 1 by \<^verbatim>\<open>samp++\<close>: after the locus the
  stream of sample 0 is one record shorter, the stream of sample 1 still holds its
  record, and the previous ancestry class of sample 1 is still -1.
\<close>

theorem C3_partner_record_not_read:
  "map_option (map_sum id (\<lambda>(st, estG, trueG). (hapmixFiles st, prevLocalAnc st)))
     (locus_body optsTL (init_state optsTL [[recA], [recA]]) ''0101\<newline>'' ''0110\<newline>'')
   = Some (Inr ([[], [recA]], [0, -1]))"
  by code_simp

text \<open>
  Without \<^verbatim>\<open>-t\<close> the record is read at the top of every iteration and no iteration
  is jumped over: the sample loop takes one record from the stream of every sample from
  its start index on. The same locus with the pairing table instead of \<^verbatim>\<open>-t\<close> reads
  both records.
\<close>

lemma pairing_table_reads_both_records:
  "map_option (map_sum id (\<lambda>(st, estG, trueG). (hapmixFiles st, prevLocalAnc st)))
     (locus_body (optsTL\<lparr>trioParentsInSuccession := False, otherParentIdx := Some [1, 0]\<rparr>)
        (init_state optsTL [[recA], [recA]]) ''0101\<newline>'' ''0110\<newline>'')
   = Some (Inr ([[], []], [0, 0]))"
  by code_simp


lemma getLocalAnc_tl: "getLocalAnc f = Inr (c, f') \<Longrightarrow> f' = tl f"
  by (auto simp: getLocalAnc_def Let_def split: list.splits option.splits if_splits)

lemma compare_sample_hapmixFiles:
  assumes c: "compare_sample opts E T samp st = Inr (fl, st')" and l: "useLocalAnc opts"
  shows "hapmixFiles st' = (hapmixFiles st)[samp := tl (hapmixFiles st ! samp)]"
proof -
  from compare_sample_cases[OF c] obtain cls st1 where
    la: "local_anc_class opts samp st = Inr (cls, st1)" and
    k: "(fl = MissingTruth \<and> (st' = st1 \<or>
           st' = st1\<lparr>stderr_out := stderr_out st1 @ [OneHapTruthWarning], oneHapTruthWarn := True\<rparr>))
       \<or> (fl = TripleHet (trioParentsInSuccession opts) \<and> st' = st1)
       \<or> (fl = MissingEstimate \<and> st' = st1\<lparr>numMissing := numMissing st1 + 1\<rparr>)
       \<or> (fl = Compared \<and>
           track_phase opts samp cls [E ! (samp * 2), E ! (samp * 2 + 1)]
              [T ! (samp * 2), T ! (samp * 2 + 1)] st1 = Inr st')"
    by blast
  from la l obtain c f' where g: "getLocalAnc (hapmixFiles st ! samp) = Inr (c, f')"
    and "hapmixFiles st1 = (hapmixFiles st)[samp := f']"
    by (auto simp: local_anc_class_def Let_def split: sum.splits if_splits)
  with getLocalAnc_tl[OF g]
  have h1: "hapmixFiles st1 = (hapmixFiles st)[samp := tl (hapmixFiles st ! samp)]" by simp
  have "hapmixFiles st' = hapmixFiles st1"
  proof (cases "fl = Compared")
    case True
    with k have "track_phase opts samp cls [E ! (samp * 2), E ! (samp * 2 + 1)]
              [T ! (samp * 2), T ! (samp * 2 + 1)] st1 = Inr st'" by simp
    from track_phase_cases[OF this] show ?thesis
      by (auto simp: count_switch_def count_het_site_def Let_def)
  next
    case False
    with k show ?thesis by auto
  qed
  with h1 show ?thesis by simp
qed

lemma compare_sample_flow_succession:
  "compare_sample opts E T samp st = Inr (fl, st') \<Longrightarrow> \<not> trioParentsInSuccession opts \<Longrightarrow>
   next_samp fl samp = samp + 1"
  by (drule compare_sample_cases) (auto simp: next_samp_def)

lemma sample_loop_reads_one_record:
  assumes "sample_loop opts E T k st = Inr st'"
    and "useLocalAnc opts" and "\<not> trioParentsInSuccession opts"
    and "length (hapmixFiles st) = numSamples opts"
  shows "length (hapmixFiles st') = numSamples opts \<and>
         (\<forall>s. s < numSamples opts \<longrightarrow>
            hapmixFiles st' ! s = (if k \<le> s then tl (hapmixFiles st ! s) else hapmixFiles st ! s))"
  using assms
proof (induction opts E T k st rule: sample_loop.induct)
  case (1 opts E T samp st)
  note loop = \<open>sample_loop opts E T samp st = Inr st'\<close>
  note la = \<open>useLocalAnc opts\<close> and ns = \<open>\<not> trioParentsInSuccession opts\<close>
  note len = \<open>length (hapmixFiles st) = numSamples opts\<close>
  show ?case
  proof (cases "samp < numSamples opts")
    case False
    with loop have "st' = st" by (subst (asm) sample_loop.simps) simp
    with False len show ?thesis by simp
  next
    case True
    with loop obtain fl st1 where c: "compare_sample opts E T samp st = Inr (fl, st1)"
      and r: "sample_loop opts E T (next_samp fl samp) st1 = Inr st'"
      by (subst (asm) sample_loop.simps) (auto split: sum.splits)
    note h = compare_sample_hapmixFiles[OF c la]
    note nx = compare_sample_flow_succession[OF c ns]
    from h len have len1: "length (hapmixFiles st1) = numSamples opts" by simp
    from "1.IH"[OF True c refl r la ns len1]
    have ih: "length (hapmixFiles st') = numSamples opts"
      "\<And>s. s < numSamples opts \<Longrightarrow>
         hapmixFiles st' ! s = (if samp + 1 \<le> s then tl (hapmixFiles st1 ! s) else hapmixFiles st1 ! s)"
      by (simp_all add: nx)
    show ?thesis
    proof (intro conjI allI impI)
      show "length (hapmixFiles st') = numSamples opts" by (rule ih(1))
    next
      fix s assume s: "s < numSamples opts"
      with ih(2)[OF s] h len True
      show "hapmixFiles st' ! s = (if samp \<le> s then tl (hapmixFiles st ! s) else hapmixFiles st ! s)"
        by (cases "s = samp") (auto simp: nth_list_update)
    qed
  qed
qed

subsection \<open>The Site Reader on newline-terminated lines\<close>

lemma skip_samples_Cons:
  "skip_samples b i (c # cs) =
     (if i < b then (if c \<noteq> CHR ''\<newline>'' then skip_samples b (i + 1) cs else (i, cs))
      else (i, c # cs))"
  by (subst skip_samples.simps) (simp add: fgetc_def)

lemma skip_samples_done: "b \<le> i \<Longrightarrow> skip_samples b i f = (i, f)"
  by (subst skip_samples.simps) simp

lemma skip_samples_line:
  "CHR ''\<newline>'' \<notin> set l \<Longrightarrow> i \<le> b \<Longrightarrow>
   skip_samples b i (l @ CHR ''\<newline>'' # rest) =
     (if nat (b - i) \<le> length l then (b, drop (nat (b - i)) l @ CHR ''\<newline>'' # rest)
      else (i + int (length l), rest))"
proof (induction l arbitrary: i)
  case Nil
  then show ?case by (simp add: skip_samples_Cons skip_samples_done)
next
  case (Cons c cs)
  show ?case
  proof (cases "i < b")
    case False
    with Cons.prems show ?thesis by (simp add: skip_samples_done)
  next
    case True
    then have nb: "nat (b - i) = Suc (nat (b - (i + 1)))" by simp
    from Cons.prems have "c \<noteq> CHR ''\<newline>''" by auto
    with True Cons.prems Cons.IH[of "i + 1"] show ?thesis
      unfolding nb by (simp add: skip_samples_Cons)
  qed
qed

lemma read_est_alleles_Cons:
  "read_est_alleles n2 omit h acc (c # cs) =
     (if c \<noteq> CHR ''\<newline>'' \<and> length acc < n2 then
        (if h div 2 \<in> set omit then read_est_alleles n2 omit (h + 1) acc cs
         else read_est_alleles n2 omit (h + 1) (acc @ [c]) cs)
      else (Some c, acc, cs))"
  by (subst read_est_alleles.simps) (simp add: fgetc_def to_char_def)

lemma read_est_alleles_line:
  "CHR ''\<newline>'' \<notin> set l \<Longrightarrow> length acc \<le> n2 \<Longrightarrow>
   \<exists>c s pre. read_est_alleles n2 omit h acc (l @ CHR ''\<newline>'' # rest) =
               (c, take n2 (acc @ kept_from omit h l), s) \<and>
             unget_newline c s = pre @ CHR ''\<newline>'' # rest \<and> CHR ''\<newline>'' \<notin> set pre"
proof (induction l arbitrary: h acc)
  case Nil
  then show ?case by (simp add: read_est_alleles_Cons unget_newline_def ungetc_def)
next
  case (Cons c cs)
  from Cons.prems have cn: "c \<noteq> CHR ''\<newline>''" by auto
  show ?case
  proof (cases "length acc < n2")
    case False
    with Cons.prems have "read_est_alleles n2 omit h acc ((c # cs) @ CHR ''\<newline>'' # rest) =
        (Some c, take n2 (acc @ kept_from omit h (c # cs)), cs @ CHR ''\<newline>'' # rest)"
      by (simp add: read_est_alleles_Cons)
    moreover have "unget_newline (Some c) (cs @ CHR ''\<newline>'' # rest) = cs @ CHR ''\<newline>'' # rest"
      using cn by (simp add: unget_newline_def)
    ultimately show ?thesis using Cons.prems by auto
  next
    case True
    show ?thesis
    proof (cases "h div 2 \<in> set omit")
      case om: True
      with Cons.IH[of acc "h + 1"] Cons.prems True cn show ?thesis
        by (simp add: read_est_alleles_Cons)
    next
      case om: False
      with Cons.IH[of "acc @ [c]" "h + 1"] Cons.prems True cn show ?thesis
        by (simp add: read_est_alleles_Cons)
    qed
  qed
qed

lemma read_true_alleles_Cons:
  "read_true_alleles n2 acc (c # cs) =
     (if c \<noteq> CHR ''\<newline>'' \<and> length acc < n2 then read_true_alleles n2 (acc @ [c]) cs
      else (Some c, acc, cs))"
  by (subst read_true_alleles.simps) (simp add: fgetc_def to_char_def)

lemma read_true_alleles_line:
  "CHR ''\<newline>'' \<notin> set l \<Longrightarrow> length acc \<le> n2 \<Longrightarrow>
   \<exists>c s pre. read_true_alleles n2 acc (l @ CHR ''\<newline>'' # rest) = (c, take n2 (acc @ l), s) \<and>
             unget_newline c s = pre @ CHR ''\<newline>'' # rest \<and> CHR ''\<newline>'' \<notin> set pre"
proof (induction l arbitrary: acc)
  case Nil
  then show ?case by (simp add: read_true_alleles_Cons unget_newline_def ungetc_def)
next
  case (Cons c cs)
  from Cons.prems have cn: "c \<noteq> CHR ''\<newline>''" by auto
  show ?case
  proof (cases "length acc < n2")
    case False
    with Cons.prems have "read_true_alleles n2 acc ((c # cs) @ CHR ''\<newline>'' # rest) =
        (Some c, take n2 (acc @ (c # cs)), cs @ CHR ''\<newline>'' # rest)"
      by (simp add: read_true_alleles_Cons)
    moreover have "unget_newline (Some c) (cs @ CHR ''\<newline>'' # rest) = cs @ CHR ''\<newline>'' # rest"
      using cn by (simp add: unget_newline_def)
    ultimately show ?thesis using Cons.prems by auto
  next
    case True
    with Cons.IH[of "acc @ [c]"] Cons.prems cn show ?thesis
      by (simp add: read_true_alleles_Cons)
  qed
qed

lemma read_to_endline_line:
  "CHR ''\<newline>'' \<notin> set l \<Longrightarrow> read_to_endline (l @ CHR ''\<newline>'' # rest) = Some rest"
  by (induction l) auto

lemma read_site_lines:
  assumes l: "CHR ''\<newline>'' \<notin> set l" and m: "CHR ''\<newline>'' \<notin> set m"
  shows "(2 * skipNumInEst opts < 0 \<or> int (length l) < 2 * skipNumInEst opts \<longrightarrow>
            read_site opts (l @ CHR ''\<newline>'' # rest) trueG = Inl (AssertionFailed 162))
       \<and> (0 \<le> 2 * skipNumInEst opts \<and> 2 * skipNumInEst opts \<le> int (length l)
            \<and> length (est_alleles_on_line opts l) < 2 * numSamples opts \<longrightarrow>
            read_site opts (l @ CHR ''\<newline>'' # rest) trueG = Inl (AssertionFailed 178))
       \<and> (0 \<le> 2 * skipNumInEst opts \<and> 2 * skipNumInEst opts \<le> int (length l)
            \<and> 2 * numSamples opts \<le> length (est_alleles_on_line opts l)
            \<and> length m < 2 * numSamples opts \<longrightarrow>
            read_site opts (l @ CHR ''\<newline>'' # rest) (m @ CHR ''\<newline>'' # rest')
              = Inl (AssertionFailed 189))
       \<and> (0 \<le> 2 * skipNumInEst opts \<and> 2 * skipNumInEst opts \<le> int (length l)
            \<and> 2 * numSamples opts \<le> length (est_alleles_on_line opts l)
            \<and> 2 * numSamples opts \<le> length m \<longrightarrow>
            (\<exists>e t. read_site opts (l @ CHR ''\<newline>'' # rest) (m @ CHR ''\<newline>'' # rest')
               = Inr (take (2 * numSamples opts) (est_alleles_on_line opts l),
                      take (2 * numSamples opts) m, e, t)
               \<and> read_to_endline e = Some rest \<and> read_to_endline t = Some rest'))"
  (is "(?A1 \<longrightarrow> ?B1) \<and> (?A2 \<longrightarrow> ?B2) \<and> (?A3 \<longrightarrow> ?B3) \<and> (?A4 \<longrightarrow> ?B4)")
proof -
  let ?b = "2 * skipNumInEst opts" and ?n2 = "2 * numSamples opts"
  let ?l' = "drop (nat ?b) l"
  have 1: "?A1 \<longrightarrow> ?B1"
  proof
    assume a: ?A1
    show ?B1
    proof (cases "?b < 0")
      case True
      then show ?thesis by (simp add: read_site_def skip_samples_done)
    next
      case False
      with a have "skip_samples ?b 0 (l @ CHR ''\<newline>'' # rest) = (int (length l), rest)"
        using skip_samples_line[OF l, of 0 ?b rest] by simp
      with a False show ?thesis by (simp add: read_site_def)
    qed
  qed
  have sk: "skip_samples ?b 0 (l @ CHR ''\<newline>'' # rest) = (?b, ?l' @ CHR ''\<newline>'' # rest)"
    if "0 \<le> ?b" "?b \<le> int (length l)"
    using that skip_samples_line[OF l, of 0 ?b rest] by simp
  have l': "CHR ''\<newline>'' \<notin> set ?l'" using l by (auto dest: in_set_dropD)
  from read_est_alleles_line[OF l', of "[]" ?n2 "omitIndSet opts" 0 rest]
  obtain c s pre where re: "read_est_alleles ?n2 (omitIndSet opts) 0 [] (?l' @ CHR ''\<newline>'' # rest)
       = (c, take ?n2 (est_alleles_on_line opts l), s)"
    and ug: "unget_newline c s = pre @ CHR ''\<newline>'' # rest" "CHR ''\<newline>'' \<notin> set pre"
    by (auto simp: est_alleles_on_line_def)
  have 2: "?A2 \<longrightarrow> ?B2"
  proof
    assume a: ?A2
    with sk re show ?B2 by (simp add: read_site_def)
  qed
  from read_true_alleles_line[OF m, of "[]" ?n2 rest']
  obtain c' s' pre' where rt: "read_true_alleles ?n2 [] (m @ CHR ''\<newline>'' # rest')
       = (c', take ?n2 m, s')"
    and ug': "unget_newline c' s' = pre' @ CHR ''\<newline>'' # rest'" "CHR ''\<newline>'' \<notin> set pre'"
    by auto
  have 3: "?A3 \<longrightarrow> ?B3"
  proof
    assume a: ?A3
    with sk re rt show ?B3 by (simp add: read_site_def)
  qed
  have 4: "?A4 \<longrightarrow> ?B4"
  proof
    assume a: ?A4
    with sk re rt have "read_site opts (l @ CHR ''\<newline>'' # rest) (m @ CHR ''\<newline>'' # rest')
               = Inr (take ?n2 (est_alleles_on_line opts l), take ?n2 m,
                      unget_newline c s, unget_newline c' s')"
      by (simp add: read_site_def)
    moreover have "read_to_endline (unget_newline c s) = Some rest"
      "read_to_endline (unget_newline c' s') = Some rest'"
      using ug ug' by (simp_all add: read_to_endline_line)
    ultimately show ?B4 by blast
  qed
  from 1 2 3 4 show ?thesis by (rule conjI[OF _ conjI[OF _ conjI]])
qed

subsection \<open>Fatal input\<close>




lemma main_loop_fatal:
  "estG \<noteq> [] \<Longrightarrow> locus_body opts st estG trueG = Some (Inl e) \<Longrightarrow>
   main_loop opts st estG trueG = Some (Inl e)"
  by (cases estG) (simp_all add: main_loop.simps[of opts st] fgetc_def ungetc_def)




subsection \<open>Termination of the per-locus loop\<close>

lemma compare_sample_numMarkers:
  assumes c: "compare_sample opts E T samp st = Inr (fl, st')"
  shows "numMarkers st' = numMarkers st"
proof -
  from compare_sample_cases[OF c] obtain cls st1 where
    la: "local_anc_class opts samp st = Inr (cls, st1)" and
    k: "(fl = MissingTruth \<and> (st' = st1 \<or>
           st' = st1\<lparr>stderr_out := stderr_out st1 @ [OneHapTruthWarning], oneHapTruthWarn := True\<rparr>))
       \<or> (fl = TripleHet (trioParentsInSuccession opts) \<and> st' = st1)
       \<or> (fl = MissingEstimate \<and> st' = st1\<lparr>numMissing := numMissing st1 + 1\<rparr>)
       \<or> (fl = Compared \<and>
           track_phase opts samp cls [E ! (samp * 2), E ! (samp * 2 + 1)]
              [T ! (samp * 2), T ! (samp * 2 + 1)] st1 = Inr st')"
    by blast
  from local_anc_class_unchanged[OF la] have u: "numMarkers st1 = numMarkers st"
    by (simp add: tracker_unchanged_def)
  show ?thesis
  proof (cases "fl = Compared")
    case True
    with k have "track_phase opts samp cls [E ! (samp * 2), E ! (samp * 2 + 1)]
              [T ! (samp * 2), T ! (samp * 2 + 1)] st1 = Inr st'" by simp
    from track_phase_cases[OF this] show ?thesis
      by (auto simp: u count_switch_def count_het_site_def Let_def)
  next
    case False
    with k u show ?thesis by auto
  qed
qed

lemma sample_loop_numMarkers:
  assumes "sample_loop opts E T k st = Inr st'"
  shows "numMarkers st' = numMarkers st"
proof -
  from assms have "(\<lambda>a b. numMarkers b = numMarkers a) st st'"
    by (rule sample_loop_rel[where R = "\<lambda>a b. numMarkers b = numMarkers a", rotated 3])
       (simp_all add: compare_sample_numMarkers)
  then show ?thesis .
qed

lemma first_line:
  assumes "CHR ''\<newline>'' \<in> set f"
  obtains l rest where "f = l @ CHR ''\<newline>'' # rest" "CHR ''\<newline>'' \<notin> set l"
  using assms by (auto dest: split_list_first)

lemma locus_body_terminated:
  assumes e: "estG \<noteq> []" "newline_terminated estG" and t: "num_lines estG \<le> num_lines trueG"
  shows "(\<exists>e. locus_body opts st estG trueG = Some (Inl e))
       \<or> (\<exists>st' estG' trueG'. locus_body opts st estG trueG = Some (Inr (st', estG', trueG'))
            \<and> newline_terminated estG' \<and> num_lines estG = num_lines estG' + 1
            \<and> num_lines estG' \<le> num_lines trueG' \<and> numMarkers st' = numMarkers st + 1)"
proof -
  from e have "CHR ''\<newline>'' \<in> set estG"
    by (auto simp: newline_terminated_def dest: last_in_set)
  then obtain l rest where el: "estG = l @ CHR ''\<newline>'' # rest" and l: "CHR ''\<newline>'' \<notin> set l"
    by (rule first_line)
  from el l have ne: "num_lines estG = num_lines rest + 1" by (simp add: num_lines_def)
  with t have "0 < count_list trueG CHR ''\<newline>''" by (simp add: num_lines_def)
  then have "CHR ''\<newline>'' \<in> set trueG"
    using count_list_0_iff[of trueG "CHR ''\<newline>''"] by auto
  then obtain m rest' where tm: "trueG = m @ CHR ''\<newline>'' # rest'" and m: "CHR ''\<newline>'' \<notin> set m"
    by (rule first_line)
  from tm m have nt: "num_lines trueG = num_lines rest' + 1" by (simp add: num_lines_def)
  from e(2) el have tr: "newline_terminated rest" by (auto simp: newline_terminated_def split: if_splits)
  note rs = read_site_lines[OF l m, of opts rest trueG rest', unfolded el[symmetric] tm[symmetric]]
  let ?b = "2 * skipNumInEst opts" and ?n2 = "2 * numSamples opts"
  consider (a1) "?b < 0 \<or> int (length l) < ?b"
    | (a2) "0 \<le> ?b \<and> ?b \<le> int (length l) \<and> length (est_alleles_on_line opts l) < ?n2"
    | (a3) "0 \<le> ?b \<and> ?b \<le> int (length l) \<and> ?n2 \<le> length (est_alleles_on_line opts l)
            \<and> length m < ?n2"
    | (a4) "0 \<le> ?b \<and> ?b \<le> int (length l) \<and> ?n2 \<le> length (est_alleles_on_line opts l)
            \<and> ?n2 \<le> length m"
    by linarith
  then show ?thesis
  proof cases
    case a1
    with rs have "read_site opts estG trueG = Inl (AssertionFailed 162)" by blast
    then show ?thesis by (simp add: locus_body_def)
  next
    case a2
    with rs have "read_site opts estG trueG = Inl (AssertionFailed 178)" by blast
    then show ?thesis by (simp add: locus_body_def)
  next
    case a3
    with rs have "read_site opts estG trueG = Inl (AssertionFailed 189)" by blast
    then show ?thesis by (simp add: locus_body_def)
  next
    case a4
    with rs obtain E T e1 t1 where r: "read_site opts estG trueG = Inr (E, T, e1, t1)"
      and ee: "read_to_endline e1 = Some rest" "read_to_endline t1 = Some rest'"
      by blast
    show ?thesis
    proof (cases "sample_loop opts E T 0 (st\<lparr>numMarkers := numMarkers st + 1\<rparr>)")
      case (Inl e)
      with r show ?thesis by (simp add: locus_body_def)
    next
      case (Inr st')
      with r ee have "locus_body opts st estG trueG = Some (Inr (st', rest, rest'))"
        by (simp add: locus_body_def)
      moreover from sample_loop_numMarkers[OF Inr] have "numMarkers st' = numMarkers st + 1"
        by simp
      ultimately show ?thesis using tr ne nt t by auto
    qed
  qed
qed


lemma main_loop_eof: "main_loop opts st [] trueG = Some (Inr st)"
  by (subst main_loop.simps) (simp add: fgetc_def)

lemma main_loop_locus:
  "estG \<noteq> [] \<Longrightarrow>
   main_loop opts st estG trueG =
     (case locus_body opts st estG trueG of
        None \<Rightarrow> None
      | Some (Inl e) \<Rightarrow> Some (Inl e)
      | Some (Inr (st', estG', trueG')) \<Rightarrow> main_loop opts st' estG' trueG')"
  by (cases estG) (simp_all add: main_loop.simps[of opts st] fgetc_def ungetc_def)

text \<open>
  When every line of the estimated stream ends with a newline and the true stream has
  at least as many lines, the loop returns: an assertion or \<^verbatim>\<open>exit(1)\<close> stops it, or
  it ends at end-of-input having counted the lines of the estimated stream.
\<close>

lemma main_loop_terminated:
  assumes "newline_terminated estG" and "num_lines estG \<le> num_lines trueG"
  shows "(\<exists>e. main_loop opts st estG trueG = Some (Inl e))
       \<or> (\<exists>st'. main_loop opts st estG trueG = Some (Inr st')
            \<and> numMarkers st' = numMarkers st + num_lines estG)"
  using assms
proof (induction opts st estG trueG rule: main_loop.induct)
  case (1 opts st estG trueG)
  show ?case
  proof (cases estG)
    case Nil
    then show ?thesis by (simp add: main_loop_eof num_lines_def)
  next
    case (Cons c cs)
    then have ne: "estG \<noteq> []" and g: "fgetc estG = (Some c, cs)" and u: "ungetc c cs = estG"
      by (simp_all add: fgetc_def ungetc_def)
    from locus_body_terminated[OF ne "1.prems", of opts st]
    show ?thesis
    proof (elim disjE exE conjE)
      fix e assume "locus_body opts st estG trueG = Some (Inl e)"
      with main_loop_fatal[OF ne this] show ?thesis by blast
    next
      fix st1 estG1 trueG1
      assume b: "locus_body opts st estG trueG = Some (Inr (st1, estG1, trueG1))"
        and tr: "newline_terminated estG1" and n: "num_lines estG = num_lines estG1 + 1"
        and le: "num_lines estG1 \<le> num_lines trueG1" and mk: "numMarkers st1 = numMarkers st + 1"
      from ne b have eq: "main_loop opts st estG trueG = main_loop opts st1 estG1 trueG1"
        by (simp add: main_loop_locus)
      from "1.IH"[OF g[symmetric] refl b[folded u] refl refl refl tr le]
      show ?thesis unfolding eq using n mk by auto
    qed
  qed
qed

subsection \<open>One iteration on inverted estimated alleles\<close>

lemma both_fatal_or_simps [simp]:
  "both_fatal_or R (Inl e) (Inl e') = True"
  "both_fatal_or R (Inl e) (Inr y) = False"
  "both_fatal_or R (Inr x) (Inl e') = False"
  "both_fatal_or R (Inr x) (Inr y) = R x y"
  by (simp_all add: both_fatal_or_def)

lemma flip_orient_fields [simp]:
  "hapmixFiles (flip_orient s st) = hapmixFiles st"
  "prevLocalAnc (flip_orient s st) = prevLocalAnc st"
  "prevSwitchError (flip_orient s st) = prevSwitchError st"
  "indivNumSwitches (flip_orient s st) = indivNumSwitches st"
  "numMissing (flip_orient s st) = numMissing st"
  "numSwitchErrors (flip_orient s st) = numSwitchErrors st"
  "totalHetSites (flip_orient s st) = totalHetSites st"
  "numMarkers (flip_orient s st) = numMarkers st"
  "numAncClassSwitchErrors (flip_orient s st) = numAncClassSwitchErrors st"
  "totalAncClassHetSites (flip_orient s st) = totalAncClassHetSites st"
  "oneHapTruthWarn (flip_orient s st) = oneHapTruthWarn st"
  "stderr_out (flip_orient s st) = stderr_out st"
  "homologsInverted (flip_orient s st) = (homologsInverted st)[s := flip (homologsInverted st ! s)]"
  by (simp_all add: flip_orient_def)

lemma track_phase_swap_same:
  assumes ok: "orient_ok s st"
  shows "both_fatal_or (\<lambda>a b. b = flip_orient s a)
           (track_phase opts s cls [e0, e1] [t0, t1] st)
           (track_phase opts s cls [e1, e0] [t0, t1] (flip_orient s st))"
proof -
  from ok have s: "s < length (homologsInverted st)"
    and h: "homologsInverted st ! s = -1 \<or> homologsInverted st ! s = 0 \<or> homologsInverted st ! s = 1"
    by (simp_all add: orient_ok_def)
  from h show ?thesis
  proof (elim disjE)
    assume "homologsInverted st ! s = -1"
    with s show ?thesis
      by (auto simp: track_phase_def flip_def flip_orient_def)
  next
    assume "homologsInverted st ! s = 0"
    with s show ?thesis
      by (auto simp: track_phase_def flip_def flip_orient_def arr_read_def Let_def
            count_switch_def count_het_site_def)
  next
    assume "homologsInverted st ! s = 1"
    with s show ?thesis
      by (auto simp: track_phase_def flip_def flip_orient_def arr_read_def Let_def
            count_switch_def count_het_site_def)
  qed
qed

lemma track_phase_swap_other:
  assumes ne: "samp \<noteq> s"
  shows "both_fatal_or (\<lambda>a b. b = flip_orient s a)
           (track_phase opts samp cls est tru st)
           (track_phase opts samp cls est tru (flip_orient s st))"
  using ne
  by (auto simp: track_phase_def flip_orient_def Let_def count_switch_def count_het_site_def
        list_update_swap[of samp s] split: sum.splits)

lemma local_anc_class_flip:
  "local_anc_class opts samp (flip_orient s st) =
     (case local_anc_class opts samp st of
        Inl e \<Rightarrow> Inl e
      | Inr (cls, st1) \<Rightarrow> Inr (cls, flip_orient s st1))"
  by (auto simp: local_anc_class_def flip_orient_def Let_def split: sum.splits)

lemma local_anc_class_orient_ok:
  "local_anc_class opts samp st = Inr (cls, st1) \<Longrightarrow> orient_ok s st \<Longrightarrow> orient_ok s st1"
  by (drule local_anc_class_unchanged) (simp add: orient_ok_def tracker_unchanged_def)

lemma compare_alleles_swap_same:
  assumes ok: "orient_ok s st"
  shows "both_fatal_or (same_flow_flipped s)
           (compare_alleles opts s cls [e0, e1] [t0, t1] st)
           (compare_alleles opts s cls [e1, e0] [t0, t1] (flip_orient s st))"
proof (cases "e0 = CHR ''?'' \<or> e1 = CHR ''?''")
  case True
  then show ?thesis
    by (auto simp: compare_alleles_def same_flow_flipped_def flip_orient_def)
next
  case False
  with track_phase_swap_same[OF ok, of opts cls e0 e1 t0 t1] show ?thesis
    by (auto simp: compare_alleles_def same_flow_flipped_def split: sum.splits)
qed

lemma compare_alleles_swap_other:
  assumes ne: "samp \<noteq> s"
  shows "both_fatal_or (same_flow_flipped s)
           (compare_alleles opts samp cls est tru st)
           (compare_alleles opts samp cls est tru (flip_orient s st))"
proof (cases "est ! 0 = CHR ''?'' \<or> est ! 1 = CHR ''?''")
  case True
  then show ?thesis
    by (auto simp: compare_alleles_def same_flow_flipped_def flip_orient_def)
next
  case False
  with track_phase_swap_other[OF ne, of opts cls est tru st] show ?thesis
    by (auto simp: compare_alleles_def same_flow_flipped_def split: sum.splits)
qed

lemma swap_sample_nth:
  "s * 2 + 1 < length E \<Longrightarrow> swap_sample s E ! (s * 2) = E ! (s * 2 + 1)"
  "s * 2 + 1 < length E \<Longrightarrow> swap_sample s E ! (s * 2 + 1) = E ! (s * 2)"
  "samp \<noteq> s \<Longrightarrow> swap_sample s E ! (samp * 2) = E ! (samp * 2)"
  "samp \<noteq> s \<Longrightarrow> swap_sample s E ! (samp * 2 + 1) = E ! (samp * 2 + 1)"
  "length (swap_sample s E) = length E"
proof -
  show "s * 2 + 1 < length E \<Longrightarrow> swap_sample s E ! (s * 2) = E ! (s * 2 + 1)"
    by (simp add: swap_sample_def swap_cols_def nth_list_update)
  show "s * 2 + 1 < length E \<Longrightarrow> swap_sample s E ! (s * 2 + 1) = E ! (s * 2)"
    by (simp add: swap_sample_def swap_cols_def nth_list_update)
  show "length (swap_sample s E) = length E" by (simp add: swap_sample_def swap_cols_def)
  assume ne: "samp \<noteq> s"
  then have "samp * 2 \<noteq> s * 2" "samp * 2 \<noteq> s * 2 + 1" "samp * 2 + 1 \<noteq> s * 2"
    "samp * 2 + 1 \<noteq> s * 2 + 1" by presburger+
  then show "swap_sample s E ! (samp * 2) = E ! (samp * 2)"
    "swap_sample s E ! (samp * 2 + 1) = E ! (samp * 2 + 1)"
    by (simp_all add: swap_sample_def swap_cols_def)
qed

lemma compare_sample_stages:
  assumes la: "local_anc_class opts samp st = Inr (cls, st1)"
  shows "compare_sample opts E T samp st =
     (if \<not> (true_allele_ok (T ! (samp * 2)) \<and> true_allele_ok (T ! (samp * 2 + 1)))
      then Inl (AssertionFailed 225)
      else if T ! (samp * 2) = CHR ''9'' \<or> T ! (samp * 2 + 1) = CHR ''9'' then
        (if \<not> oneHapTruthWarn st1 \<and> (T ! (samp * 2) \<noteq> CHR ''9'' \<or> T ! (samp * 2 + 1) \<noteq> CHR ''9'')
         then Inr (MissingTruth,
                   st1\<lparr>stderr_out := stderr_out st1 @ [OneHapTruthWarning],
                       oneHapTruthWarn := True\<rparr>)
         else Inr (MissingTruth, st1))
      else if E ! (samp * 2) = CHR ''9'' \<or> E ! (samp * 2 + 1) = CHR ''9''
      then Inl (AssertionFailed 238)
      else
        (case (if trioCheckApplies opts samp
               then tripleHet T [T ! (samp * 2), T ! (samp * 2 + 1)] (otherParentOf opts samp)
               else Inr False) of
           Inl e \<Rightarrow> Inl e
         | Inr True \<Rightarrow> Inr (TripleHet (trioParentsInSuccession opts), st1)
         | Inr False \<Rightarrow>
             compare_alleles opts samp cls [E ! (samp * 2), E ! (samp * 2 + 1)]
               [T ! (samp * 2), T ! (samp * 2 + 1)] st1))"
  by (simp add: compare_sample_def la Let_def true_allele_ok_def
        cong: sum.case_cong bool.case_cong if_cong)

lemma compare_sample_swap:
  assumes ok: "orient_ok s st" and len: "s * 2 + 1 < length E"
  shows "both_fatal_or (same_flow_flipped s)
           (compare_sample opts E T samp st)
           (compare_sample opts (swap_sample s E) T samp (flip_orient s st))"
proof (cases "local_anc_class opts samp st")
  case (Inl e)
  then show ?thesis by (simp add: compare_sample_def local_anc_class_flip)
next
  case (Inr r)
  obtain cls st1 where r: "r = (cls, st1)" by (cases r)
  with Inr have la: "local_anc_class opts samp st = Inr (cls, st1)" by simp
  note ok1 = local_anc_class_orient_ok[OF la ok]
  have fl1: "local_anc_class opts samp (flip_orient s st) = Inr (cls, flip_orient s st1)"
    by (simp add: local_anc_class_flip la)
  note A = compare_sample_stages[OF la, of E T] and B = compare_sample_stages[OF fl1, of "swap_sample s E" T]
  let ?th = "if trioCheckApplies opts samp
             then tripleHet T [T ! (samp * 2), T ! (samp * 2 + 1)] (otherParentOf opts samp)
             else Inr False"
  have e9: "(swap_sample s E ! (samp * 2) = CHR ''9'' \<or> swap_sample s E ! (samp * 2 + 1) = CHR ''9'')
        = (E ! (samp * 2) = CHR ''9'' \<or> E ! (samp * 2 + 1) = CHR ''9'')"
    using swap_sample_nth(1,2)[OF len] swap_sample_nth(3,4)[of samp s E]
    by (cases "samp = s") auto
  have ca: "both_fatal_or (same_flow_flipped s)
      (compare_alleles opts samp cls [E ! (samp * 2), E ! (samp * 2 + 1)]
               [T ! (samp * 2), T ! (samp * 2 + 1)] st1)
      (compare_alleles opts samp cls [swap_sample s E ! (samp * 2), swap_sample s E ! (samp * 2 + 1)]
               [T ! (samp * 2), T ! (samp * 2 + 1)] (flip_orient s st1))"
  proof (cases "samp = s")
    case True
    with compare_alleles_swap_same[OF ok1, of opts cls "E ! (s * 2)" "E ! (s * 2 + 1)"
        "T ! (s * 2)" "T ! (s * 2 + 1)"] swap_sample_nth(1,2)[OF len]
    show ?thesis by simp
  next
    case False
    with compare_alleles_swap_other[OF False, of opts cls "[E ! (samp * 2), E ! (samp * 2 + 1)]"
        "[T ! (samp * 2), T ! (samp * 2 + 1)]" st1] swap_sample_nth(3,4)[OF False, of E]
    show ?thesis by simp
  qed
  consider (bad) "\<not> (true_allele_ok (T ! (samp * 2)) \<and> true_allele_ok (T ! (samp * 2 + 1)))"
    | (missing) "true_allele_ok (T ! (samp * 2)) \<and> true_allele_ok (T ! (samp * 2 + 1))"
        "T ! (samp * 2) = CHR ''9'' \<or> T ! (samp * 2 + 1) = CHR ''9''"
    | (est9) "true_allele_ok (T ! (samp * 2)) \<and> true_allele_ok (T ! (samp * 2 + 1))"
        "\<not> (T ! (samp * 2) = CHR ''9'' \<or> T ! (samp * 2 + 1) = CHR ''9'')"
        "E ! (samp * 2) = CHR ''9'' \<or> E ! (samp * 2 + 1) = CHR ''9''"
    | (trio) "true_allele_ok (T ! (samp * 2)) \<and> true_allele_ok (T ! (samp * 2 + 1))"
        "\<not> (T ! (samp * 2) = CHR ''9'' \<or> T ! (samp * 2 + 1) = CHR ''9'')"
        "\<not> (E ! (samp * 2) = CHR ''9'' \<or> E ! (samp * 2 + 1) = CHR ''9'')"
    by blast
  then show ?thesis
  proof cases
    case bad
    then show ?thesis unfolding A B by simp
  next
    case missing
    then show ?thesis unfolding A B
      by (simp add: same_flow_flipped_def flip_orient_def)
  next
    case est9
    then show ?thesis unfolding A B e9 by simp
  next
    case trio
    show ?thesis
    proof (cases ?th)
      case (Inl e)
      with trio show ?thesis unfolding A B e9 by simp
    next
      case (Inr b)
      with trio ca show ?thesis unfolding A B e9
        by (cases b) (simp_all add: same_flow_flipped_def)
    qed
  qed
qed

lemma compare_sample_orient_ok:
  assumes c: "compare_sample opts E T samp st = Inr (fl, st')" and ok: "orient_ok s st"
  shows "orient_ok s st'"
proof (rule compare_sample_cases5[OF c])
  assume "homologsInverted st' = homologsInverted st"
  with ok show ?thesis by (simp add: orient_ok_def)
next
  fix st1 assume "tracker_unchanged st st1" "st' = st1"
  with ok show ?thesis by (simp add: orient_ok_def tracker_unchanged_def)
next
  fix st1 assume "tracker_unchanged st st1"
    "st' = st1\<lparr>homologsInverted := (homologsInverted st1)[samp := 0]\<rparr>
     \<or> st' = st1\<lparr>homologsInverted := (homologsInverted st1)[samp := 1]\<rparr>"
  with ok show ?thesis
    by (cases "samp = s") (auto simp: orient_ok_def tracker_unchanged_def)
next
  fix cls st1 assume "tracker_unchanged st st1" "st' = count_het_site cls st1"
  with ok show ?thesis by (simp add: orient_ok_def step_defs)
next
  fix cls st1 assume "tracker_unchanged st st1"
    "homologsInverted st ! samp = 0 \<or> homologsInverted st ! samp = 1"
    "st' = count_switch opts samp cls (count_het_site cls st1)"
  with ok show ?thesis
    by (cases "samp = s") (auto simp: orient_ok_def step_defs)
qed

lemma sample_loop_orient_ok:
  assumes "sample_loop opts E T k st = Inr st'" and "orient_ok s st"
  shows "orient_ok s st'"
proof -
  from assms(1) have "orient_ok s st \<longrightarrow> orient_ok s st'"
    by (rule sample_loop_rel[where R = "\<lambda>a b. orient_ok s a \<longrightarrow> orient_ok s b", rotated 3])
       (auto intro: compare_sample_orient_ok)
  with assms(2) show ?thesis by simp
qed

lemma sample_loop_swap:
  assumes "s * 2 + 1 < length E" and "orient_ok s st"
  shows "both_fatal_or (\<lambda>a b. b = flip_orient s a)
           (sample_loop opts E T k st)
           (sample_loop opts (swap_sample s E) T k (flip_orient s st))"
  using assms
proof (induction opts E T k st rule: sample_loop.induct)
  case (1 opts E T samp st)
  note len = \<open>s * 2 + 1 < length E\<close> and ok = \<open>orient_ok s st\<close>
  show ?case
  proof (cases "samp < numSamples opts")
    case False
    then show ?thesis
      by (simp add: sample_loop.simps[of opts E] sample_loop.simps[of opts "swap_sample s E"])
  next
    case True
    note sw = compare_sample_swap[OF ok len, of opts T samp]
    show ?thesis
    proof (cases "compare_sample opts E T samp st")
      case (Inl e)
      with sw obtain e' where
        "compare_sample opts (swap_sample s E) T samp (flip_orient s st) = Inl e'"
        by (cases "compare_sample opts (swap_sample s E) T samp (flip_orient s st)") auto
      with Inl True show ?thesis
        by (simp add: sample_loop.simps[of opts E] sample_loop.simps[of opts "swap_sample s E"])
    next
      case (Inr r)
      obtain fl st1 where r: "r = (fl, st1)" by (cases r)
      with Inr have c: "compare_sample opts E T samp st = Inr (fl, st1)" by simp
      with sw have c': "compare_sample opts (swap_sample s E) T samp (flip_orient s st)
                          = Inr (fl, flip_orient s st1)"
        by (cases "compare_sample opts (swap_sample s E) T samp (flip_orient s st)")
           (auto simp: same_flow_flipped_def)
      note ok1 = compare_sample_orient_ok[OF c ok]
      from "1.IH"[OF True c refl len ok1] c c' True show ?thesis
        by (simp add: sample_loop.simps[of opts E T samp]
              sample_loop.simps[of opts "swap_sample s E" T samp])
    qed
  qed
qed

subsection \<open>Exchanging two columns of a line\<close>

lemma swap_cols_length [simp]: "length (swap_cols c l) = length l"
  by (simp add: swap_cols_def)

lemma swap_cols_short: "length l \<le> c + 1 \<Longrightarrow> swap_cols c l = l"
  by (simp add: swap_cols_def)

lemma swap_cols_0: "swap_cols 0 (x # y # l) = y # x # l"
  by (simp add: swap_cols_def)

lemma swap_cols_Suc: "swap_cols (Suc c) (x # l) = x # swap_cols c l"
  by (simp add: swap_cols_def)

lemma swap_cols_set [simp]: "set (swap_cols c l) = set l"
proof (induction l arbitrary: c)
  case Nil
  then show ?case by (simp add: swap_cols_def)
next
  case (Cons x xs)
  show ?case
  proof (cases c)
    case 0
    then show ?thesis by (cases xs) (auto simp: swap_cols_0 swap_cols_def)
  next
    case (Suc c')
    with Cons show ?thesis by (simp add: swap_cols_Suc)
  qed
qed

lemma drop_swap_cols: "drop b (swap_cols (b + c) l) = swap_cols c (drop b l)"
proof (induction b arbitrary: l)
  case 0
  then show ?case by simp
next
  case (Suc b)
  show ?case
  proof (cases l)
    case Nil
    then show ?thesis by (simp add: swap_cols_def)
  next
    case (Cons x xs)
    with Suc[of xs] show ?thesis by (simp add: swap_cols_Suc)
  qed
qed

lemma take_swap_cols: "c + 1 < n \<Longrightarrow> take n (swap_cols c l) = swap_cols c (take n l)"
proof (induction l arbitrary: c n)
  case Nil
  then show ?case by (simp add: swap_cols_def)
next
  case (Cons x xs)
  from Cons.prems obtain n' where n: "n = Suc n'" by (cases n) auto
  show ?case
  proof (cases c)
    case 0
    with Cons.prems n obtain n'' where n': "n' = Suc n''" by (cases n') auto
    with 0 n show ?thesis by (cases xs) (simp_all add: swap_cols_0 swap_cols_def)
  next
    case (Suc c')
    with Cons.prems n Cons.IH[of c' n'] show ?thesis by (simp add: swap_cols_Suc)
  qed
qed

lemma length_kept_from:
  "length (kept_from omit h xs) =
     length (filter (\<lambda>i. i div 2 \<notin> set omit) [h..<h + length xs])"
proof (induction xs arbitrary: h)
  case Nil
  then show ?case by simp
next
  case (Cons x xs)
  have "[h..<h + length (x # xs)] = h # [Suc h..<Suc h + length xs]"
    using upt_conv_Cons[of h "h + length (x # xs)"] by simp
  with Cons[of "Suc h"] show ?case by simp
qed

lemma filter_pairs:
  "length (filter (\<lambda>i. i div 2 \<notin> S) [0..<2 * j]) =
     2 * length (filter (\<lambda>k. k \<notin> S) [0..<j])"
proof (induction j)
  case 0
  then show ?case by simp
next
  case (Suc j)
  have "[0..<2 * Suc j] = [0..<2 * j] @ [2 * j, 2 * j + 1]" by (simp add: upt_rec[of "2 * j"])
  with Suc show ?case by simp
qed

lemma kept_from_swap:
  assumes "even (h + k)" and "(h + k) div 2 \<notin> set omit" and "k + 1 < length l"
  shows "kept_from omit h (swap_cols k l) =
         swap_cols (length (kept_from omit h (take k l))) (kept_from omit h l)"
  using assms
proof (induction l arbitrary: h k)
  case Nil
  then show ?case by simp
next
  case (Cons x xs)
  show ?case
  proof (cases k)
    case 0
    with Cons.prems obtain y ys where xs: "xs = y # ys" by (cases xs) auto
    from Cons.prems 0 have "h div 2 \<notin> set omit" "Suc h div 2 = h div 2" by auto
    with 0 xs show ?thesis by (simp add: swap_cols_0)
  next
    case (Suc k')
    with Cons.prems have p: "even (Suc h + k')" "(Suc h + k') div 2 \<notin> set omit"
      "k' + 1 < length xs" by simp_all
    from Cons.IH[OF p] Suc show ?thesis by (simp add: swap_cols_Suc)
  qed
qed

lemma swap_stream_Nil: "swap_stream c [] = []"
  by (simp add: swap_stream.simps[of c "[]"] swap_cols_def)

lemma no_newline_takeWhile:
  "CHR ''\<newline>'' \<notin> set l \<Longrightarrow> takeWhile (\<lambda>x. x \<noteq> CHR ''\<newline>'') l = l"
  "CHR ''\<newline>'' \<notin> set l \<Longrightarrow> dropWhile (\<lambda>x. x \<noteq> CHR ''\<newline>'') l = []"
  by (induction l) auto

lemma swap_stream_line:
  "CHR ''\<newline>'' \<notin> set l \<Longrightarrow>
   swap_stream c (l @ CHR ''\<newline>'' # rest) = swap_cols c l @ CHR ''\<newline>'' # swap_stream c rest"
  by (subst swap_stream.simps)
     (simp add: takeWhile_tail dropWhile_append3 no_newline_takeWhile)

lemma swap_stream_last_line:
  "CHR ''\<newline>'' \<notin> set l \<Longrightarrow> swap_stream c l = swap_cols c l"
  by (subst swap_stream.simps) (simp add: no_newline_takeWhile)

lemma est_alleles_on_line_length_swap:
  "length (est_alleles_on_line opts (swap_cols c l)) = length (est_alleles_on_line opts l)"
  by (simp add: est_alleles_on_line_def length_kept_from)

lemma est_alleles_on_line_short:
  assumes j: "j \<notin> set (omitIndSet opts)" and len: "length l \<le> est_column opts j + 1"
  shows "length (est_alleles_on_line opts l) \<le> 2 * kept_index opts j + 1"
proof -
  let ?P = "\<lambda>i. i div 2 \<notin> set (omitIndSet opts)"
  let ?m = "length (drop (nat (2 * skipNumInEst opts)) l)"
  from len have m: "?m \<le> 2 * j + 1" by (simp add: est_column_def)
  then have "[0..<2 * j + 1] = [0..<?m] @ [?m..<2 * j + 1]"
    using upt_add_eq_append[of 0 ?m "2 * j + 1 - ?m"] by simp
  then have "length (filter ?P [0..<?m]) \<le> length (filter ?P [0..<2 * j + 1])"
    by simp
  also have "\<dots> = length (filter ?P [0..<2 * j]) + 1" using j by simp
  also have "\<dots> = 2 * kept_index opts j + 1" by (simp add: filter_pairs kept_index_def)
  finally show ?thesis by (simp add: est_alleles_on_line_def length_kept_from)
qed

lemma est_alleles_on_line_swap:
  assumes j: "j \<notin> set (omitIndSet opts)" and len: "est_column opts j + 1 < length l"
  shows "est_alleles_on_line opts (swap_cols (est_column opts j) l) =
         swap_sample (kept_index opts j) (est_alleles_on_line opts l)"
proof -
  let ?b = "nat (2 * skipNumInEst opts)"
  from len have l2: "2 * j + 1 < length (drop ?b l)" by (simp add: est_column_def)
  have "length (kept_from (omitIndSet opts) 0 (take (2 * j) (drop ?b l))) = 2 * kept_index opts j"
    using l2 by (simp add: length_kept_from filter_pairs kept_index_def min_def)
  moreover have "kept_from (omitIndSet opts) 0 (swap_cols (2 * j) (drop ?b l)) =
      swap_cols (length (kept_from (omitIndSet opts) 0 (take (2 * j) (drop ?b l))))
        (kept_from (omitIndSet opts) 0 (drop ?b l))"
    using j l2 by (intro kept_from_swap) simp_all
  ultimately show ?thesis
    by (simp add: est_alleles_on_line_def est_column_def drop_swap_cols swap_sample_def
        mult.commute)
qed

lemma read_site_est_line:
  assumes l: "CHR ''\<newline>'' \<notin> set l"
  shows "\<exists>e. read_to_endline e = Some rest \<and>
     read_site opts (l @ CHR ''\<newline>'' # rest) trueG =
       (if 2 * skipNumInEst opts < 0 \<or> int (length l) < 2 * skipNumInEst opts
        then Inl (AssertionFailed 162)
        else if length (est_alleles_on_line opts l) < 2 * numSamples opts
        then Inl (AssertionFailed 178)
        else case read_true_alleles (2 * numSamples opts) [] trueG of (c', T, t1) \<Rightarrow>
           if length T \<noteq> 2 * numSamples opts then Inl (AssertionFailed 189)
           else Inr (take (2 * numSamples opts) (est_alleles_on_line opts l), T, e,
                     unget_newline c' t1))"
proof -
  let ?b = "2 * skipNumInEst opts" and ?n2 = "2 * numSamples opts"
  let ?l' = "drop (nat ?b) l"
  have l': "CHR ''\<newline>'' \<notin> set ?l'" using l by (auto dest: in_set_dropD)
  from read_est_alleles_line[OF l', of "[]" ?n2 "omitIndSet opts" 0 rest]
  obtain c s pre where re: "read_est_alleles ?n2 (omitIndSet opts) 0 [] (?l' @ CHR ''\<newline>'' # rest)
       = (c, take ?n2 (est_alleles_on_line opts l), s)"
    and ug: "unget_newline c s = pre @ CHR ''\<newline>'' # rest" "CHR ''\<newline>'' \<notin> set pre"
    by (auto simp: est_alleles_on_line_def)
  have e: "read_to_endline (unget_newline c s) = Some rest"
    using ug by (simp add: read_to_endline_line)
  note rs = read_site_lines[OF l l, of opts rest trueG, THEN conjunct1]
  show ?thesis
  proof (cases "?b < 0 \<or> int (length l) < ?b")
    case True
    with rs have "read_site opts (l @ CHR ''\<newline>'' # rest) trueG = Inl (AssertionFailed 162)"
      by blast
    with True e show ?thesis by auto
  next
    case False
    then have "nat ?b \<le> length l" "0 \<le> ?b" by linarith+
    then have sk: "skip_samples ?b 0 (l @ CHR ''\<newline>'' # rest) = (?b, ?l' @ CHR ''\<newline>'' # rest)"
      using skip_samples_line[OF l, of 0 ?b rest] by simp
    obtain c' T t1 where rt: "read_true_alleles ?n2 [] trueG = (c', T, t1)"
      by (cases "read_true_alleles ?n2 [] trueG")
    from False sk re rt have "read_site opts (l @ CHR ''\<newline>'' # rest) trueG =
       (if length (est_alleles_on_line opts l) < ?n2 then Inl (AssertionFailed 178)
        else if length T \<noteq> ?n2 then Inl (AssertionFailed 189)
        else Inr (take ?n2 (est_alleles_on_line opts l), T, unget_newline c s,
                     unget_newline c' t1))"
      by (simp add: read_site_def)
    with False rt e show ?thesis by auto
  qed
qed

subsection \<open>The run on the inverted stream\<close>

lemma locus_body_swap:
  assumes l: "CHR ''\<newline>'' \<notin> set l" and j: "j \<notin> set (omitIndSet opts)"
    and s: "kept_index opts j < numSamples opts" and ok: "orient_ok (kept_index opts j) st"
  shows "(locus_body opts st (l @ CHR ''\<newline>'' # rest) trueG = None
          \<and> locus_body opts (flip_orient (kept_index opts j) st)
                (swap_cols (est_column opts j) l @ CHR ''\<newline>'' # rest') trueG = None)
       \<or> (\<exists>e e'. locus_body opts st (l @ CHR ''\<newline>'' # rest) trueG = Some (Inl e)
          \<and> locus_body opts (flip_orient (kept_index opts j) st)
                (swap_cols (est_column opts j) l @ CHR ''\<newline>'' # rest') trueG = Some (Inl e'))
       \<or> (\<exists>st1 t1. locus_body opts st (l @ CHR ''\<newline>'' # rest) trueG = Some (Inr (st1, rest, t1))
          \<and> locus_body opts (flip_orient (kept_index opts j) st)
                (swap_cols (est_column opts j) l @ CHR ''\<newline>'' # rest') trueG
              = Some (Inr (flip_orient (kept_index opts j) st1, rest', t1))
          \<and> orient_ok (kept_index opts j) st1)"
proof -
  let ?s = "kept_index opts j" and ?c = "est_column opts j" and ?n2 = "2 * numSamples opts"
  let ?b = "2 * skipNumInEst opts"
  let ?l' = "swap_cols ?c l"
  let ?E = "take ?n2 (est_alleles_on_line opts l)"
  let ?A = "locus_body opts st (l @ CHR ''\<newline>'' # rest) trueG"
  let ?B = "locus_body opts (flip_orient ?s st) (?l' @ CHR ''\<newline>'' # rest') trueG"
  obtain c' T t1 where rt: "read_true_alleles ?n2 [] trueG = (c', T, t1)"
    by (cases "read_true_alleles ?n2 [] trueG")
  from read_site_est_line[OF l, of rest opts trueG] rt
  obtain e where e: "read_to_endline e = Some rest" and
    r: "read_site opts (l @ CHR ''\<newline>'' # rest) trueG =
       (if ?b < 0 \<or> int (length l) < ?b then Inl (AssertionFailed 162)
        else if length (est_alleles_on_line opts l) < ?n2 then Inl (AssertionFailed 178)
        else if length T \<noteq> ?n2 then Inl (AssertionFailed 189)
        else Inr (?E, T, e, unget_newline c' t1))"
    by auto
  have l': "CHR ''\<newline>'' \<notin> set ?l'" using l by simp
  from read_site_est_line[OF l', of rest' opts trueG] rt
  obtain e' where e': "read_to_endline e' = Some rest'" and
    r': "read_site opts (?l' @ CHR ''\<newline>'' # rest') trueG =
       (if ?b < 0 \<or> int (length l) < ?b then Inl (AssertionFailed 162)
        else if length (est_alleles_on_line opts l) < ?n2 then Inl (AssertionFailed 178)
        else if length T \<noteq> ?n2 then Inl (AssertionFailed 189)
        else Inr (take ?n2 (est_alleles_on_line opts ?l'), T, e', unget_newline c' t1))"
    by (auto simp: est_alleles_on_line_length_swap)
  show ?thesis
  proof (cases "(?b < 0 \<or> int (length l) < ?b) \<or> length (est_alleles_on_line opts l) < ?n2
                \<or> length T \<noteq> ?n2")
    case True
    with r r' have "\<exists>x. read_site opts (l @ CHR ''\<newline>'' # rest) trueG = Inl x"
      "\<exists>x. read_site opts (?l' @ CHR ''\<newline>'' # rest') trueG = Inl x"
      by auto
    then have "\<exists>e e'. ?A = Some (Inl e) \<and> ?B = Some (Inl e')"
      by (auto simp: locus_body_def)
    then show ?thesis by blast
  next
    case False
    with r r' have rs: "read_site opts (l @ CHR ''\<newline>'' # rest) trueG
          = Inr (?E, T, e, unget_newline c' t1)"
      "read_site opts (?l' @ CHR ''\<newline>'' # rest') trueG
          = Inr (take ?n2 (est_alleles_on_line opts ?l'), T, e', unget_newline c' t1)"
      by simp_all
    have len: "?c + 1 < length l"
    proof (rule ccontr)
      assume "\<not> ?c + 1 < length l"
      then have "length l \<le> ?c + 1" by simp
      from est_alleles_on_line_short[OF j this] s False show False by simp
    qed
    from s have s2: "?s * 2 + 1 < ?n2" by simp
    have E': "take ?n2 (est_alleles_on_line opts ?l') = swap_sample ?s ?E"
      using s2 by (simp add: est_alleles_on_line_swap[OF j len] swap_sample_def take_swap_cols)
    from False have lenE: "?s * 2 + 1 < length ?E" using s2 by simp
    let ?st0 = "st\<lparr>numMarkers := numMarkers st + 1\<rparr>"
    have fl: "(flip_orient ?s st)\<lparr>numMarkers := numMarkers (flip_orient ?s st) + 1\<rparr>
                = flip_orient ?s ?st0"
      by (simp add: flip_orient_def)
    from ok have ok0: "orient_ok ?s ?st0" by (simp add: orient_ok_def)
    let ?st0' = "(flip_orient ?s st)\<lparr>numMarkers := numMarkers (flip_orient ?s st) + 1\<rparr>"
    note sw = sample_loop_swap[OF lenE ok0, of opts T 0, unfolded fl[symmetric]]
    show ?thesis
    proof (cases "sample_loop opts ?E T 0 ?st0")
      case (Inl x)
      with sw obtain y where "sample_loop opts (swap_sample ?s ?E) T 0 ?st0' = Inl y"
        by (cases "sample_loop opts (swap_sample ?s ?E) T 0 ?st0'") simp_all
      with Inl rs E' have "?A = Some (Inl x)" "?B = Some (Inl y)"
        by (simp_all add: locus_body_def)
      then show ?thesis by blast
    next
      case (Inr st1)
      with sw have sl: "sample_loop opts (swap_sample ?s ?E) T 0 ?st0' = Inr (flip_orient ?s st1)"
        by (cases "sample_loop opts (swap_sample ?s ?E) T 0 ?st0'") simp_all
      from sample_loop_orient_ok[OF Inr ok0] have ok1: "orient_ok ?s st1" .
      show ?thesis
      proof (cases "read_to_endline (unget_newline c' t1)")
        case None
        with Inr sl rs E' e e' have "?A = None" "?B = None"
          by (simp_all add: locus_body_def)
        then show ?thesis by blast
      next
        case (Some t2)
        with Inr sl rs E' e e' have "?A = Some (Inr (st1, rest, t2))"
          "?B = Some (Inr (flip_orient ?s st1, rest', t2))"
          by (simp_all add: locus_body_def)
        with ok1 show ?thesis by blast
      qed
    qed
  qed
qed

lemma newline_terminated_line:
  "newline_terminated (l @ CHR ''\<newline>'' # r) = newline_terminated r"
  by (simp add: newline_terminated_def)

lemma newline_terminated_no_newline:
  "CHR ''\<newline>'' \<notin> set f \<Longrightarrow> newline_terminated f = (f = [])"
  by (cases "f = []") (auto simp: newline_terminated_def dest: last_in_set)

lemma swap_stream_terminated:
  "newline_terminated (swap_stream c f) = newline_terminated f"
proof (induction c f rule: swap_stream.induct)
  case (1 c f)
  show ?case
  proof (cases "CHR ''\<newline>'' \<in> set f")
    case True
    then obtain l rest where el: "f = l @ CHR ''\<newline>'' # rest" and l: "CHR ''\<newline>'' \<notin> set l"
      by (rule first_line)
    then have "dropWhile (\<lambda>x. x \<noteq> CHR ''\<newline>'') f = CHR ''\<newline>'' # rest"
      by (simp add: dropWhile_append3 no_newline_takeWhile)
    from "1.IH"[OF this] el l show ?thesis
      by (simp add: swap_stream_line newline_terminated_line)
  next
    case False
    then have "swap_cols c f = [] \<longleftrightarrow> f = []"
      using swap_cols_length[of c f] by (metis length_0_conv)
    with False show ?thesis
      by (simp add: swap_stream_last_line newline_terminated_no_newline)
  qed
qed

lemma main_loop_swap:
  assumes "newline_terminated estG" and "j \<notin> set (omitIndSet opts)"
    and "kept_index opts j < numSamples opts" and "orient_ok (kept_index opts j) st"
  shows "(main_loop opts st estG trueG = None
          \<and> main_loop opts (flip_orient (kept_index opts j) st)
                (swap_stream (est_column opts j) estG) trueG = None)
       \<or> (\<exists>e e'. main_loop opts st estG trueG = Some (Inl e)
          \<and> main_loop opts (flip_orient (kept_index opts j) st)
                (swap_stream (est_column opts j) estG) trueG = Some (Inl e'))
       \<or> (\<exists>st1. main_loop opts st estG trueG = Some (Inr st1)
          \<and> main_loop opts (flip_orient (kept_index opts j) st)
                (swap_stream (est_column opts j) estG) trueG
              = Some (Inr (flip_orient (kept_index opts j) st1)))"
  using assms
proof (induction opts st estG trueG rule: main_loop.induct)
  case (1 opts st estG trueG)
  note tm = \<open>newline_terminated estG\<close> and j = \<open>j \<notin> set (omitIndSet opts)\<close>
    and s = \<open>kept_index opts j < numSamples opts\<close> and ok = \<open>orient_ok (kept_index opts j) st\<close>
  let ?s = "kept_index opts j" and ?c = "est_column opts j"
  show ?case
  proof (cases estG)
    case Nil
    then show ?thesis by (simp add: main_loop_eof swap_stream_Nil)
  next
    case (Cons c cs)
    then have ne: "estG \<noteq> []" and g: "fgetc estG = (Some c, cs)" and u: "ungetc c cs = estG"
      by (simp_all add: fgetc_def ungetc_def)
    from ne tm have "CHR ''\<newline>'' \<in> set estG"
      by (auto simp: newline_terminated_def dest: last_in_set)
    then obtain l rest where el: "estG = l @ CHR ''\<newline>'' # rest" and l: "CHR ''\<newline>'' \<notin> set l"
      by (rule first_line)
    from tm el have tr: "newline_terminated rest" by (simp add: newline_terminated_line)
    have sw: "swap_stream ?c estG = swap_cols ?c l @ CHR ''\<newline>'' # swap_stream ?c rest"
      using el l by (simp add: swap_stream_line)
    then have ne': "swap_stream ?c estG \<noteq> []" by simp
    note ml = main_loop_locus[OF ne, of opts st trueG]
      main_loop_locus[OF ne', of opts "flip_orient ?s st" trueG]
    from locus_body_swap[OF l j s ok, of rest trueG "swap_stream ?c rest"]
    show ?thesis unfolding el[symmetric] sw[symmetric]
    proof (elim disjE exE conjE)
      assume "locus_body opts st estG trueG = None"
        "locus_body opts (flip_orient ?s st) (swap_stream ?c estG) trueG = None"
      with ml show ?thesis by simp
    next
      fix e e'
      assume "locus_body opts st estG trueG = Some (Inl e)"
        "locus_body opts (flip_orient ?s st) (swap_stream ?c estG) trueG = Some (Inl e')"
      with ml show ?thesis by simp
    next
      fix st1 t1
      assume b: "locus_body opts st estG trueG = Some (Inr (st1, rest, t1))"
        and b': "locus_body opts (flip_orient ?s st) (swap_stream ?c estG) trueG
              = Some (Inr (flip_orient ?s st1, swap_stream ?c rest, t1))"
        and ok1: "orient_ok ?s st1"
      from ml b b' have eq: "main_loop opts st estG trueG = main_loop opts st1 rest t1"
        "main_loop opts (flip_orient ?s st) (swap_stream ?c estG) trueG
           = main_loop opts (flip_orient ?s st1) (swap_stream ?c rest) t1"
        by simp_all
      from "1.IH"[OF g[symmetric] refl b[folded u] refl refl refl tr j s ok1]
      show ?thesis unfolding eq .
    qed
  qed
qed

subsection \<open>A last line without newline\<close>

lemma skip_samples_no_newline:
  "CHR ''\<newline>'' \<notin> set f \<Longrightarrow> CHR ''\<newline>'' \<notin> set (snd (skip_samples b i f))"
proof (induction b i f rule: skip_samples.induct)
  case (1 b i f)
  obtain c f0 where g: "fgetc f = (c, f0)" by (cases "fgetc f")
  with "1.prems" have f0: "CHR ''\<newline>'' \<notin> set f0" "c \<noteq> Some CHR ''\<newline>''"
    by (auto simp: fgetc_def split: list.splits)
  show ?case
  proof (cases "i < b")
    case True
    from "1.IH"[OF True g[symmetric] f0(2) f0(1)]
    have "CHR ''\<newline>'' \<notin> set (snd (skip_samples b (i + 1) f0))" .
    moreover from True g f0 have "skip_samples b i f = skip_samples b (i + 1) f0"
      by (subst skip_samples.simps) simp
    ultimately show ?thesis by simp
  next
    case False
    with "1.prems" show ?thesis by (simp add: skip_samples_done)
  qed
qed

lemma read_est_alleles_no_newline:
  "CHR ''\<newline>'' \<notin> set f \<Longrightarrow> read_est_alleles n2 omit h acc f = (c, a, f') \<Longrightarrow>
   CHR ''\<newline>'' \<notin> set (unget_newline c f')"
proof (induction n2 omit h acc f rule: read_est_alleles.induct)
  case (1 n2 omit curHap acc estG)
  obtain x xs where g: "fgetc estG = (x, xs)" by (cases "fgetc estG")
  with "1.prems"(1) have nn: "CHR ''\<newline>'' \<notin> set xs" "x \<noteq> Some CHR ''\<newline>''"
    by (auto simp: fgetc_def split: list.splits)
  show ?case
  proof (cases "x \<noteq> Some CHR ''\<newline>'' \<and> length acc < n2")
    case False
    with "1.prems"(2) g have "c = x" "f' = xs"
      by (subst (asm) read_est_alleles.simps, simp)+
    with nn show ?thesis by (simp add: unget_newline_def)
  next
    case True
    show ?thesis
    proof (cases "curHap div 2 \<in> set omit")
      case om: True
      with True "1.prems"(2) g have "read_est_alleles n2 omit (curHap + 1) acc xs = (c, a, f')"
        by (subst (asm) read_est_alleles.simps) simp
      from "1.IH"(1)[OF g[symmetric] True om nn(1) this] show ?thesis .
    next
      case om: False
      with True "1.prems"(2) g
      have "read_est_alleles n2 omit (curHap + 1) (acc @ [to_char x]) xs = (c, a, f')"
        by (subst (asm) read_est_alleles.simps) simp
      from "1.IH"(2)[OF g[symmetric] True om nn(1) this] show ?thesis .
    qed
  qed
qed

lemma read_to_endline_no_newline:
  "CHR ''\<newline>'' \<notin> set f \<Longrightarrow> read_to_endline f = None"
  by (induction f) auto

lemma locus_body_no_newline:
  assumes "CHR ''\<newline>'' \<notin> set estG"
  shows "locus_body opts st estG trueG \<noteq> Some (Inr x)"
proof
  assume body: "locus_body opts st estG trueG = Some (Inr x)"
  obtain i estG1 where s1: "skip_samples (2 * skipNumInEst opts) 0 estG = (i, estG1)"
    by (cases "skip_samples (2 * skipNumInEst opts) 0 estG")
  obtain c a estG2 where
    s2: "read_est_alleles (2 * numSamples opts) (omitIndSet opts) 0 [] estG1 = (c, a, estG2)"
    by (cases "read_est_alleles (2 * numSamples opts) (omitIndSet opts) 0 [] estG1")
  from body s1 s2 obtain xb where "read_to_endline (unget_newline c estG2) = Some xb"
    by (auto simp: locus_body_def read_site_def Let_def
             split: sum.splits prod.splits option.splits if_splits)
  moreover from skip_samples_no_newline[OF assms, of "2 * skipNumInEst opts" 0] s1
  have "CHR ''\<newline>'' \<notin> set estG1" by simp
  from read_est_alleles_no_newline[OF this s2]
  have "read_to_endline (unget_newline c estG2) = None"
    by (rule read_to_endline_no_newline)
  ultimately show False by simp
qed

lemma locus_body_rest:
  assumes l: "CHR ''\<newline>'' \<notin> set l"
    and b: "locus_body opts st (l @ CHR ''\<newline>'' # rest) trueG = Some (Inr (st1, e1, t1))"
  shows "e1 = rest"
proof -
  from read_site_est_line[OF l, of rest opts trueG]
  obtain e where e: "read_to_endline e = Some rest" and
    r: "read_site opts (l @ CHR ''\<newline>'' # rest) trueG =
       (if 2 * skipNumInEst opts < 0 \<or> int (length l) < 2 * skipNumInEst opts
        then Inl (AssertionFailed 162)
        else if length (est_alleles_on_line opts l) < 2 * numSamples opts
        then Inl (AssertionFailed 178)
        else case read_true_alleles (2 * numSamples opts) [] trueG of (c', T, t1) \<Rightarrow>
           if length T \<noteq> 2 * numSamples opts then Inl (AssertionFailed 189)
           else Inr (take (2 * numSamples opts) (est_alleles_on_line opts l), T, e,
                     unget_newline c' t1))"
    by blast
  from b e show ?thesis unfolding locus_body_def r
    by (auto split: sum.splits prod.splits option.splits if_splits)
qed

lemma main_loop_normal_terminated:
  "main_loop opts st estG trueG = Some (Inr st') \<Longrightarrow> newline_terminated estG"
proof (induction opts st estG trueG rule: main_loop.induct)
  case (1 opts st estG trueG)
  show ?case
  proof (cases estG)
    case Nil
    then show ?thesis by (simp add: newline_terminated_def)
  next
    case (Cons c cs)
    then have ne: "estG \<noteq> []" and g: "fgetc estG = (Some c, cs)" and u: "ungetc c cs = estG"
      by (simp_all add: fgetc_def ungetc_def)
    from "1.prems" main_loop_locus[OF ne, of opts st trueG]
    obtain st1 e1 t1 where b: "locus_body opts st estG trueG = Some (Inr (st1, e1, t1))"
      and m: "main_loop opts st1 e1 t1 = Some (Inr st')"
      by (auto split: option.splits sum.splits)
    from "1.IH"[OF g[symmetric] refl b[folded u] refl refl refl m]
    have t1: "newline_terminated e1" .
    from b locus_body_no_newline[of estG opts st trueG] have "CHR ''\<newline>'' \<in> set estG"
      by blast
    then obtain l rest where el: "estG = l @ CHR ''\<newline>'' # rest" and l: "CHR ''\<newline>'' \<notin> set l"
      by (rule first_line)
    from locus_body_rest[OF l b[unfolded el]] have "e1 = rest" .
    with t1 el show ?thesis by (simp add: newline_terminated_line)
  qed
qed

lemma init_state_orient:
  assumes "s < numSamples opts"
  shows "orient_ok s (init_state opts files)"
    and "flip_orient s (init_state opts files) = init_state opts files"
proof -
  show "orient_ok s (init_state opts files)"
    using assms by (simp add: orient_ok_def init_state_def)
  have "(replicate (numSamples opts) (- 1 :: int))[s := - 1] = replicate (numSamples opts) (- 1)"
    using assms by (simp add: list_eq_iff_nth_eq nth_list_update)
  with assms show "flip_orient s (init_state opts files) = init_state opts files"
    by (simp add: flip_orient_def init_state_def flip_def)
qed

lemma main_result_flip:
  "final_blocks opts (flip_orient s st) = final_blocks opts st"
  "print_report opts (flip_orient s st) = print_report opts st"
  "(flip_orient s st)\<lparr>stderr_out := x\<rparr> = flip_orient s (st\<lparr>stderr_out := x\<rparr>)"
  by (simp_all add: flip_orient_def final_blocks_def print_report_def)

text \<open>
  C8. Take a sample that is compared: it stands at position \<open>j\<close> of the lines of the
  estimated file, is not omitted, and its index among the samples kept is below
  \<^verbatim>\<open>numSamples\<close>. Exchange its two estimated alleles on every line of the estimated
  stream and leave the options, the HAPMIX files and the true stream as they are. Then
  the run on the new stream ends normally exactly when the run on the old one does, and
  the two runs print the same report and end in the same state but for the orientation
  of that sample, which is the other one (Aligned for Inverted). In particular the
  switch count of every sample, \<^verbatim>\<open>numSwitchErrors\<close> and \<^verbatim>\<open>totalHetSites\<close> are the
  same. When the run on the old stream does not end normally, because an assertion
  stops it or because it never returns, the run on the new stream does not end normally
  either.
\<close>

theorem C8_inversion_symmetry:
  assumes j: "j \<notin> set (omitIndSet opts)" and s: "kept_index opts j < numSamples opts"
  shows "completes_alike (kept_index opts j)
           (main opts files estG trueG)
           (main opts files (swap_stream (est_column opts j) estG) trueG)
       \<and> (\<forall>rep st. main opts files estG trueG = Some (Inr (rep, st)) \<longrightarrow>
            (\<exists>st'. main opts files (swap_stream (est_column opts j) estG) trueG
                     = Some (Inr (rep, st'))
                 \<and> indivNumSwitches st' = indivNumSwitches st
                 \<and> numSwitchErrors st' = numSwitchErrors st
                 \<and> totalHetSites st' = totalHetSites st))"
proof -
  let ?s = "kept_index opts j" and ?c = "est_column opts j"
  let ?i = "init_state opts files"
  let ?A = "main_loop opts ?i estG trueG" and ?B = "main_loop opts ?i (swap_stream ?c estG) trueG"
  have ca: "completes_alike ?s (main opts files estG trueG)
           (main opts files (swap_stream ?c estG) trueG)"
  proof (cases "newline_terminated estG")
    case True
    from main_loop_swap[OF True j s init_state_orient(1)[OF s], of files trueG]
    have "(?A = None \<and> ?B = None) \<or> (\<exists>e e'. ?A = Some (Inl e) \<and> ?B = Some (Inl e'))
       \<or> (\<exists>st1. ?A = Some (Inr st1) \<and> ?B = Some (Inr (flip_orient ?s st1)))"
      by (simp add: init_state_orient(2)[OF s])
    then show ?thesis
      by (auto simp: main_def completes_alike_def main_result_flip)
  next
    case False
    then have "\<not> newline_terminated (swap_stream ?c estG)" by (simp add: swap_stream_terminated)
    with False have "\<And>x. ?A \<noteq> Some (Inr x)" "\<And>x. ?B \<noteq> Some (Inr x)"
      by (auto dest: main_loop_normal_terminated)
    then show ?thesis
      by (auto simp: main_def completes_alike_def split: option.splits sum.splits)
  qed
  moreover have "(\<forall>rep st. main opts files estG trueG = Some (Inr (rep, st)) \<longrightarrow>
            (\<exists>st'. main opts files (swap_stream ?c estG) trueG = Some (Inr (rep, st'))
                 \<and> indivNumSwitches st' = indivNumSwitches st
                 \<and> numSwitchErrors st' = numSwitchErrors st
                 \<and> totalHetSites st' = totalHetSites st))"
    using ca by (auto simp: completes_alike_def)
  ultimately show ?thesis by (rule conjI)
qed

theorem C8_inversion_symmetry_witness:
  "0 \<notin> set (omitIndSet optsA) \<and> kept_index optsA 0 < numSamples optsA
   \<and> swap_stream (est_column optsA 0) ''01\<newline>10\<newline>01\<newline>'' = ''10\<newline>01\<newline>10\<newline>''
   \<and> main optsA [] ''01\<newline>10\<newline>01\<newline>'' ''01\<newline>01\<newline>10\<newline>'' =
       Some (Inr (\<lparr>switch_line = (1, 2, Quotient (1 / 2)), missing_line = None,
                    anc_class_lines = None\<rparr>,
                  stateA 3 1 1 1 2))
   \<and> main optsA [] ''10\<newline>01\<newline>10\<newline>'' ''01\<newline>01\<newline>10\<newline>'' =
       Some (Inr (\<lparr>switch_line = (1, 2, Quotient (1 / 2)), missing_line = None,
                    anc_class_lines = None\<rparr>,
                  stateA 3 0 1 1 2))"
proof -
  have h: "0 \<notin> set (omitIndSet optsA)" "kept_index optsA 0 < numSamples optsA"
    by (simp_all add: optsA_def kept_index_def)
  have k: "kept_index optsA 0 = 0" by (simp add: kept_index_def)
  have sw: "swap_stream (est_column optsA 0) ''01\<newline>10\<newline>01\<newline>'' = ''10\<newline>01\<newline>10\<newline>''"
    by code_simp
  have m: "main optsA [] ''01\<newline>10\<newline>01\<newline>'' ''01\<newline>01\<newline>10\<newline>'' =
       Some (Inr (\<lparr>switch_line = (1, 2, Quotient (1 / 2)), missing_line = None,
                    anc_class_lines = None\<rparr>,
                  stateA 3 1 1 1 2))"
    by code_simp
  have f: "flip_orient 0 (stateA 3 1 1 1 2) = stateA 3 0 1 1 2"
    by (simp add: flip_orient_def stateA_def flip_def)
  from C8_inversion_symmetry[OF h, of "[]" "''01\<newline>10\<newline>01\<newline>''" "''01\<newline>01\<newline>10\<newline>''",
      THEN conjunct1]
  have "completes_alike 0
       (Some (Inr (\<lparr>switch_line = (1, 2, Quotient (1 / 2)), missing_line = None,
                    anc_class_lines = None\<rparr>,
                  stateA 3 1 1 1 2)))
       (main optsA [] ''10\<newline>01\<newline>10\<newline>'' ''01\<newline>01\<newline>10\<newline>'')"
    unfolding k sw m .
  then have "main optsA [] ''10\<newline>01\<newline>10\<newline>'' ''01\<newline>01\<newline>10\<newline>'' =
       Some (Inr (\<lparr>switch_line = (1, 2, Quotient (1 / 2)), missing_line = None,
                    anc_class_lines = None\<rparr>,
                  flip_orient 0 (stateA 3 1 1 1 2)))"
    by (simp add: completes_alike_def)
  then have "main optsA [] ''10\<newline>01\<newline>10\<newline>'' ''01\<newline>01\<newline>10\<newline>'' =
       Some (Inr (\<lparr>switch_line = (1, 2, Quotient (1 / 2)), missing_line = None,
                    anc_class_lines = None\<rparr>,
                  stateA 3 0 1 1 2))"
    unfolding f .
  with h sw m show ?thesis by simp
qed

subsection \<open>A stream that ends inside a line\<close>

lemma skip_samples_last_line:
  "CHR ''\<newline>'' \<notin> set l \<Longrightarrow> i \<le> b \<Longrightarrow> nat (b - i) \<le> length l \<Longrightarrow>
   skip_samples b i l = (b, drop (nat (b - i)) l)"
proof (induction l arbitrary: i)
  case Nil
  then show ?case by (simp add: skip_samples_done)
next
  case (Cons c cs)
  show ?case
  proof (cases "i < b")
    case False
    with Cons.prems show ?thesis by (simp add: skip_samples_done)
  next
    case True
    then have nb: "nat (b - i) = Suc (nat (b - (i + 1)))" by simp
    from Cons.prems have "c \<noteq> CHR ''\<newline>''" by auto
    with True Cons.prems Cons.IH[of "i + 1"] show ?thesis
      unfolding nb by (simp add: skip_samples_Cons)
  qed
qed

lemma read_est_alleles_last_line:
  "CHR ''\<newline>'' \<notin> set l \<Longrightarrow> length acc \<le> n2 \<Longrightarrow>
   n2 \<le> length (acc @ kept_from omit h l) \<Longrightarrow>
   \<exists>c s. read_est_alleles n2 omit h acc l = (c, take n2 (acc @ kept_from omit h l), s)"
proof (induction l arbitrary: h acc)
  case Nil
  then show ?case by (subst read_est_alleles.simps) (simp add: fgetc_def)
next
  case (Cons c cs)
  from Cons.prems have cn: "c \<noteq> CHR ''\<newline>''" by auto
  show ?case
  proof (cases "length acc < n2")
    case False
    with Cons.prems show ?thesis by (simp add: read_est_alleles_Cons)
  next
    case True
    show ?thesis
    proof (cases "h div 2 \<in> set omit")
      case om: True
      with Cons.IH[of acc "h + 1"] Cons.prems True cn show ?thesis
        by (simp add: read_est_alleles_Cons)
    next
      case om: False
      with Cons.IH[of "acc @ [c]" "h + 1"] Cons.prems True cn show ?thesis
        by (simp add: read_est_alleles_Cons)
    qed
  qed
qed

lemma locus_body_normal_line:
  assumes l: "CHR ''\<newline>'' \<notin> set l"
    and b: "locus_body opts st (l @ CHR ''\<newline>'' # rest) trueG = Some (Inr (st1, e1, t1))"
  shows "0 \<le> 2 * skipNumInEst opts \<and> 2 * skipNumInEst opts \<le> int (length l)
       \<and> 2 * numSamples opts \<le> length (est_alleles_on_line opts l)
       \<and> (\<exists>c' T t0. read_true_alleles (2 * numSamples opts) [] trueG = (c', T, t0)
             \<and> length T = 2 * numSamples opts
             \<and> sample_loop opts (take (2 * numSamples opts) (est_alleles_on_line opts l)) T 0
                  (st\<lparr>numMarkers := numMarkers st + 1\<rparr>) = Inr st1
             \<and> read_to_endline (unget_newline c' t0) = Some t1)
       \<and> e1 = rest"
proof -
  from read_site_est_line[OF l, of rest opts trueG]
  obtain e where e: "read_to_endline e = Some rest" and
    r: "read_site opts (l @ CHR ''\<newline>'' # rest) trueG =
       (if 2 * skipNumInEst opts < 0 \<or> int (length l) < 2 * skipNumInEst opts
        then Inl (AssertionFailed 162)
        else if length (est_alleles_on_line opts l) < 2 * numSamples opts
        then Inl (AssertionFailed 178)
        else case read_true_alleles (2 * numSamples opts) [] trueG of (c', T, t1) \<Rightarrow>
           if length T \<noteq> 2 * numSamples opts then Inl (AssertionFailed 189)
           else Inr (take (2 * numSamples opts) (est_alleles_on_line opts l), T, e,
                     unget_newline c' t1))"
    by blast
  from b e show ?thesis unfolding locus_body_def r
    by (auto split: sum.splits prod.splits option.splits if_splits)
qed

lemma locus_body_line_normal:
  assumes l: "CHR ''\<newline>'' \<notin> set l"
    and sk: "0 \<le> 2 * skipNumInEst opts" "2 * skipNumInEst opts \<le> int (length l)"
    and en: "2 * numSamples opts \<le> length (est_alleles_on_line opts l)"
    and rt: "read_true_alleles (2 * numSamples opts) [] trueG = (c', T, t0)"
      "length T = 2 * numSamples opts"
    and sl: "sample_loop opts (take (2 * numSamples opts) (est_alleles_on_line opts l)) T 0
                  (st\<lparr>numMarkers := numMarkers st + 1\<rparr>) = Inr st1"
    and te: "read_to_endline (unget_newline c' t0) = Some t1"
  shows "locus_body opts st (l @ CHR ''\<newline>'' # rest) trueG = Some (Inr (st1, rest, t1))"
proof -
  from read_site_est_line[OF l, of rest opts trueG] sk en rt
  obtain e where e: "read_to_endline e = Some rest" and
    r: "read_site opts (l @ CHR ''\<newline>'' # rest) trueG =
          Inr (take (2 * numSamples opts) (est_alleles_on_line opts l), T, e,
                     unget_newline c' t0)"
    by auto
  from e sl te show ?thesis unfolding locus_body_def r by simp
qed

lemma locus_body_last_line:
  assumes l: "CHR ''\<newline>'' \<notin> set l"
    and sk: "0 \<le> 2 * skipNumInEst opts" "2 * skipNumInEst opts \<le> int (length l)"
    and en: "2 * numSamples opts \<le> length (est_alleles_on_line opts l)"
    and rt: "read_true_alleles (2 * numSamples opts) [] trueG = (c', T, t0)"
      "length T = 2 * numSamples opts"
    and sl: "sample_loop opts (take (2 * numSamples opts) (est_alleles_on_line opts l)) T 0
                  (st\<lparr>numMarkers := numMarkers st + 1\<rparr>) = Inr st1"
  shows "locus_body opts st l trueG = None"
proof -
  let ?b = "2 * skipNumInEst opts" and ?n2 = "2 * numSamples opts"
  let ?l' = "drop (nat ?b) l"
  from sk have "nat (?b - 0) \<le> length l" by linarith
  from skip_samples_last_line[OF l sk(1) this]
  have s1: "skip_samples ?b 0 l = (?b, ?l')" by simp
  have l': "CHR ''\<newline>'' \<notin> set ?l'" using l by (auto dest: in_set_dropD)
  from en have "?n2 \<le> length ([] @ kept_from (omitIndSet opts) 0 ?l')"
    by (simp add: est_alleles_on_line_def)
  from read_est_alleles_last_line[OF l' _ this]
  obtain c s where s2: "read_est_alleles ?n2 (omitIndSet opts) 0 [] ?l'
       = (c, take ?n2 (est_alleles_on_line opts l), s)"
    by (auto simp: est_alleles_on_line_def)
  from read_est_alleles_no_newline[OF l' s2]
  have "read_to_endline (unget_newline c s) = None" by (rule read_to_endline_no_newline)
  moreover from s1 s2 rt en have "read_site opts l trueG =
      Inr (take ?n2 (est_alleles_on_line opts l), T, unget_newline c s, unget_newline c' t0)"
    by (simp add: read_site_def)
  ultimately show ?thesis using sl by (simp add: locus_body_def)
qed

lemma main_loop_without_last_newline:
  assumes "main_loop opts st (estG @ [CHR ''\<newline>'']) trueG = Some (Inr st')"
    and "estG \<noteq> []" and "last estG \<noteq> CHR ''\<newline>''"
  shows "main_loop opts st estG trueG = None"
  using assms
proof (induction opts st estG trueG rule: main_loop.induct)
  case (1 opts st estG trueG)
  note run = \<open>main_loop opts st (estG @ [CHR ''\<newline>'']) trueG = Some (Inr st')\<close>
    and ne = \<open>estG \<noteq> []\<close> and la = \<open>last estG \<noteq> CHR ''\<newline>''\<close>
  from ne obtain c cs where g: "fgetc estG = (Some c, cs)" and u: "ungetc c cs = estG"
    by (cases estG) (simp_all add: fgetc_def ungetc_def)
  from run main_loop_locus[of "estG @ [CHR ''\<newline>'']" opts st trueG]
  obtain st1 e1 t1 where
    b: "locus_body opts st (estG @ [CHR ''\<newline>'']) trueG = Some (Inr (st1, e1, t1))"
    and m: "main_loop opts st1 e1 t1 = Some (Inr st')"
    by (auto split: option.splits sum.splits)
  show ?case
  proof (cases "CHR ''\<newline>'' \<in> set estG")
    case False
    from locus_body_normal_line[OF False b]
    obtain c' T t0 where "0 \<le> 2 * skipNumInEst opts" "2 * skipNumInEst opts \<le> int (length estG)"
      "2 * numSamples opts \<le> length (est_alleles_on_line opts estG)"
      "read_true_alleles (2 * numSamples opts) [] trueG = (c', T, t0)"
      "length T = 2 * numSamples opts"
      "sample_loop opts (take (2 * numSamples opts) (est_alleles_on_line opts estG)) T 0
                  (st\<lparr>numMarkers := numMarkers st + 1\<rparr>) = Inr st1"
      by blast
    from locus_body_last_line[OF False this]
    have "locus_body opts st estG trueG = None" .
    with ne show ?thesis by (simp add: main_loop_locus)
  next
    case True
    then obtain l rest where el: "estG = l @ CHR ''\<newline>'' # rest" and l: "CHR ''\<newline>'' \<notin> set l"
      by (rule first_line)
    from la el have rne: "rest \<noteq> []" and rla: "last rest \<noteq> CHR ''\<newline>''"
      by (auto split: if_splits)
    from b el have b2: "locus_body opts st (l @ CHR ''\<newline>'' # (rest @ [CHR ''\<newline>''])) trueG
        = Some (Inr (st1, e1, t1))" by simp
    from locus_body_normal_line[OF l b2]
    obtain c' T t0 where k: "0 \<le> 2 * skipNumInEst opts" "2 * skipNumInEst opts \<le> int (length l)"
      "2 * numSamples opts \<le> length (est_alleles_on_line opts l)"
      "read_true_alleles (2 * numSamples opts) [] trueG = (c', T, t0)"
      "length T = 2 * numSamples opts"
      "sample_loop opts (take (2 * numSamples opts) (est_alleles_on_line opts l)) T 0
                  (st\<lparr>numMarkers := numMarkers st + 1\<rparr>) = Inr st1"
      "read_to_endline (unget_newline c' t0) = Some t1"
      and e1: "e1 = rest @ [CHR ''\<newline>'']"
      by blast
    from locus_body_line_normal[OF l k, of rest]
    have b3: "locus_body opts st estG trueG = Some (Inr (st1, rest, t1))"
      by (simp add: el)
    from "1.IH"[OF g[symmetric] refl b3[folded u] refl refl refl m[unfolded e1] rne rla]
    have "main_loop opts st1 rest t1 = None" .
    with b3 ne show ?thesis by (simp add: main_loop_locus)
  qed
qed

text \<open>
  C5. The per-locus loop does not end at end-of-input of the estimated stream when that
  stream ends inside a line. The loops of lines 366--367 read up to the next newline
  and do not test for \<^verbatim>\<open>EOF\<close>. Take any options and streams on which the program ends
  normally, the estimated stream ending with a newline, and remove that last newline:
  every locus is still read and compared as before, and then the loop of line 366 reads
  \<^verbatim>\<open>EOF\<close> for ever; the run neither ends normally nor is it stopped. On the streams
  of scenario A: with the last newline the run ends with the report 1 / 2; without it the
  third locus is read (line 179 finds no newline to push back), the per-sample loop
  leaves the state of the normal run, and the run never returns. The loop of line 367
  does the same when the true stream ends inside a line.
\<close>

theorem C5_stream_ends_inside_a_line:
  "(estG \<noteq> [] \<and> last estG \<noteq> CHR ''\<newline>''
      \<and> main_loop opts st (estG @ [CHR ''\<newline>'']) trueG = Some (Inr st')
      \<longrightarrow> main_loop opts st estG trueG = None)
   \<and> (estG \<noteq> [] \<and> last estG \<noteq> CHR ''\<newline>''
      \<and> main opts files (estG @ [CHR ''\<newline>'']) trueG = Some (Inr r)
      \<longrightarrow> main opts files estG trueG = None)
   \<and> main optsA [] ''01\<newline>10\<newline>01\<newline>'' ''01\<newline>01\<newline>10\<newline>'' =
       Some (Inr (\<lparr>switch_line = (1, 2, Quotient (1 / 2)), missing_line = None,
                    anc_class_lines = None\<rparr>,
                  stateA 3 1 1 1 2))
   \<and> read_site optsA ''01'' ''10\<newline>'' = Inr (''01'', ''10'', [], ''\<newline>'')
   \<and> sample_loop optsA ''01'' ''10'' 0 ((stateA 2 1 1 1 1)\<lparr>numMarkers := 3\<rparr>)
       = Inr (stateA 3 1 1 1 2)
   \<and> read_to_endline [] = None
   \<and> locus_body optsA (stateA 2 1 1 1 1) ''01'' ''10\<newline>'' = None
   \<and> main optsA [] ''01\<newline>10\<newline>01'' ''01\<newline>01\<newline>10\<newline>'' = None
   \<and> main optsA [] ''01\<newline>'' ''01'' = None"
proof -
  have 1: "estG \<noteq> [] \<and> last estG \<noteq> CHR ''\<newline>''
      \<and> main_loop opts st (estG @ [CHR ''\<newline>'']) trueG = Some (Inr st')
      \<longrightarrow> main_loop opts st estG trueG = None" for opts st st'
    using main_loop_without_last_newline[of opts st estG trueG st'] by blast
  have 2: "estG \<noteq> [] \<and> last estG \<noteq> CHR ''\<newline>''
      \<and> main opts files (estG @ [CHR ''\<newline>'']) trueG = Some (Inr r)
      \<longrightarrow> main opts files estG trueG = None"
  proof
    assume a: "estG \<noteq> [] \<and> last estG \<noteq> CHR ''\<newline>''
      \<and> main opts files (estG @ [CHR ''\<newline>'']) trueG = Some (Inr r)"
    then obtain st' where
      "main_loop opts (init_state opts files) (estG @ [CHR ''\<newline>'']) trueG = Some (Inr st')"
      by (auto simp: main_def split: option.splits sum.splits)
    with a 1[of opts "init_state opts files" st']
    have "main_loop opts (init_state opts files) estG trueG = None" by blast
    then show "main opts files estG trueG = None" by (simp add: main_def)
  qed
  have 3: "main optsA [] ''01\<newline>10\<newline>01\<newline>'' ''01\<newline>01\<newline>10\<newline>'' =
       Some (Inr (\<lparr>switch_line = (1, 2, Quotient (1 / 2)), missing_line = None,
                    anc_class_lines = None\<rparr>,
                  stateA 3 1 1 1 2))"
    by code_simp
  have 4: "read_site optsA ''01'' ''10\<newline>'' = Inr (''01'', ''10'', [], ''\<newline>'')"
    by code_simp
  have 5: "sample_loop optsA ''01'' ''10'' 0 ((stateA 2 1 1 1 1)\<lparr>numMarkers := 3\<rparr>)
       = Inr (stateA 3 1 1 1 2)"
    by code_simp
  have 6: "read_to_endline [] = None" by simp
  have 7: "locus_body optsA (stateA 2 1 1 1 1) ''01'' ''10\<newline>'' = None" by code_simp
  have 8: "main optsA [] ''01\<newline>10\<newline>01'' ''01\<newline>01\<newline>10\<newline>'' = None" by code_simp
  have 9: "main optsA [] ''01\<newline>'' ''01'' = None" by code_simp
  from 1 2 3 4 5 6 7 8 9 show ?thesis
    by (rule conjI[OF _ conjI[OF _ conjI[OF _ conjI[OF _ conjI[OF _ conjI[OF _
        conjI[OF _ conjI]]]]]]])
qed

theorem C5_stream_ends_inside_a_line_witness:
  "''01\<newline>10\<newline>01'' \<noteq> [] \<and> last ''01\<newline>10\<newline>01'' \<noteq> CHR ''\<newline>''
   \<and> main optsA [] (''01\<newline>10\<newline>01'' @ [CHR ''\<newline>'']) ''01\<newline>01\<newline>10\<newline>'' =
       Some (Inr (\<lparr>switch_line = (1, 2, Quotient (1 / 2)), missing_line = None,
                    anc_class_lines = None\<rparr>,
                  stateA 3 1 1 1 2))
   \<and> main optsA [] ''01\<newline>10\<newline>01'' ''01\<newline>01\<newline>10\<newline>'' = None"
proof -
  have h: "''01\<newline>10\<newline>01'' \<noteq> []" "last ''01\<newline>10\<newline>01'' \<noteq> CHR ''\<newline>''"
    by simp_all
  have m: "main optsA [] (''01\<newline>10\<newline>01'' @ [CHR ''\<newline>'']) ''01\<newline>01\<newline>10\<newline>'' =
       Some (Inr (\<lparr>switch_line = (1, 2, Quotient (1 / 2)), missing_line = None,
                    anc_class_lines = None\<rparr>,
                  stateA 3 1 1 1 2))"
    by code_simp
  from C5_stream_ends_inside_a_line[where estG = "''01\<newline>10\<newline>01''" and opts = optsA
      and files = "[]" and trueG = "''01\<newline>01\<newline>10\<newline>''"
      and r = "(\<lparr>switch_line = (1, 2, Quotient (1 / 2)), missing_line = None,
                    anc_class_lines = None\<rparr>, stateA 3 1 1 1 2)",
      THEN conjunct2, THEN conjunct1] h m
  have "main optsA [] ''01\<newline>10\<newline>01'' ''01\<newline>01\<newline>10\<newline>'' = None"
    by blast
  with h m show ?thesis by blast
qed

end
